theory Spec2Isabelle
  imports Complex_Main "HOL-Library.AList" "HOL-Library.Log_Nat"
begin

section \<open>Data model of dist_mat.py\<close>

text \<open>
  A Python \<open>dict\<close> keeps its items in insertion order and \<open>create_jobs\<close> and
  \<open>export_result\<close> iterate over them, so a dict is an association list in insertion
  order. Assigning to a key that is present replaces the value in place, assigning to a new
  key appends the item: this is \<open>AList.update\<close>. Keys of a dict are pairwise different;
  the predicates \<open>is_dict\<close> and \<open>addr_book_dict\<close> say so for a list.

  The address book is \<open>{group_no: {address_id: address}}\<close>, a job is the tuple
  \<open>(group_no, ori_id, des_id)\<close>, the distance matrix is
  \<open>{ori_id: {des_id: distance}}\<close>. Group numbers and address ids are Python ints,
  addresses are strings.
\<close>

type_synonym addr_book = "(int \<times> (int \<times> string) list) list"

type_synonym job = "int \<times> int \<times> int"

definition is_dict :: "('k \<times> 'v) list \<Rightarrow> bool" where
  "is_dict d = distinct (map fst d)"

definition addr_book_dict :: "addr_book \<Rightarrow> bool" where
  "addr_book_dict addr_book = (is_dict addr_book \<and> list_all is_dict (map snd addr_book))"

text \<open>
  \<open>import_addr\<close> numbers the addresses with one counter over the whole file, so an
  address id occurs once in the whole book, not only once in its group.
\<close>

definition all_ids :: "addr_book \<Rightarrow> int list" where
  "all_ids addr_book = concat (map (\<lambda>(grp, adds). map fst adds) addr_book)"

definition ids_unique :: "addr_book \<Rightarrow> bool" where
  "ids_unique addr_book = distinct (all_ids addr_book)"

section \<open>create_jobs\<close>

text \<open>
  \<open>itertools.combinations(keys, 2)\<close> yields the pairs of positions \<open>p < q\<close> of its
  argument in lexicographic order of \<open>(p, q)\<close>: the first element with every later one,
  then the second with every later one, and so on.
\<close>

fun combinations2 :: "'a list \<Rightarrow> ('a \<times> 'a) list" where
  "combinations2 [] = []"
| "combinations2 (x # xs) = map (Pair x) xs @ combinations2 xs"

text \<open>
  \<^verbatim>\<open>
  job_list = []
  for grp, adds in addr_book.items():
      id_pairs = combinations(adds.keys(), 2)
      for id_pair in id_pairs:
          job_list.append((grp, id_pair[0], id_pair[1]))
  return job_list
  \<close>
\<close>

definition group_jobs :: "int \<times> (int \<times> string) list \<Rightarrow> job list" where
  "group_jobs item =
     (case item of (grp, adds) \<Rightarrow>
        map (\<lambda>id_pair. (grp, fst id_pair, snd id_pair)) (combinations2 (map fst adds)))"

definition create_jobs :: "addr_book \<Rightarrow> job list" where
  "create_jobs addr_book = concat (map group_jobs addr_book)"

text \<open>The three components of a job, and the unordered pair of addresses it is about.\<close>

definition job_grp :: "job \<Rightarrow> int" where
  "job_grp j = (case j of (grp, ori_id, des_id) \<Rightarrow> grp)"

definition job_ori :: "job \<Rightarrow> int" where
  "job_ori j = (case j of (grp, ori_id, des_id) \<Rightarrow> ori_id)"

definition job_des :: "job \<Rightarrow> int" where
  "job_des j = (case j of (grp, ori_id, des_id) \<Rightarrow> des_id)"

definition job_pair :: "job \<Rightarrow> int set" where
  "job_pair j = (case j of (grp, ori_id, des_id) \<Rightarrow> {ori_id, des_id})"

text \<open>\<open>a\<close> is an id of the group \<open>grp\<close> of the book.\<close>

definition in_group :: "addr_book \<Rightarrow> int \<Rightarrow> int \<Rightarrow> bool" where
  "in_group addr_book grp a =
     (case map_of addr_book grp of None \<Rightarrow> False | Some adds \<Rightarrow> a \<in> set (map fst adds))"

section \<open>Python floats\<close>

text \<open>
  \<open>time()\<close> returns a Python float, an IEEE 754 double, and the scheduler subtracts
  doubles and compares the differences. A double is modelled by the real number it
  stands for, and the subtraction of the machine is the exact difference rounded to the
  nearest double, ties to the even mantissa: \<open>fsub\<close>. A double has a mantissa of 53
  bits, so around a number \<open>x\<close> with \<open>2 ^ e \<le> \<bar>x\<bar> < 2 ^ (e + 1)\<close> the doubles are the
  multiples of \<open>2 ^ (e - 52)\<close>, and of \<open>2 ^ - 1074\<close> for the smallest numbers.
  Comparisons of doubles, and of a double with an int, are exact. Results of magnitude
  \<open>2 ^ 1024\<close> and more, which the machine turns into infinities, are outside the model;
  clock values and their differences are far below.

  \<open>expo x\<close> is the exponent \<open>e\<close> of \<open>x \<noteq> 0\<close>, computed from the number of binary
  digits of the integer part of \<open>\<bar>x\<bar>\<close>, or of \<open>1 / \<bar>x\<bar>\<close> for \<open>\<bar>x\<bar> < 1\<close>.
\<close>

definition expo :: "real \<Rightarrow> int" where
  "expo x = (if 1 \<le> \<bar>x\<bar> then bitlen \<lfloor>\<bar>x\<bar>\<rfloor> - 1 else - bitlen (\<lceil>1 / \<bar>x\<bar>\<rceil> - 1))"

text \<open>The distance of two neighbouring doubles around \<open>x\<close>.\<close>

definition quantum :: "real \<Rightarrow> real" where
  "quantum x = 2 powi (max (expo x - 52) (- 1074))"

text \<open>The nearest integer, the even one of the two when they are equally near.\<close>

definition round_half_even :: "real \<Rightarrow> int" where
  "round_half_even y =
     (let f = \<lfloor>y\<rfloor>; d = y - of_int f
      in if d < 1 / 2 then f else if 1 / 2 < d then f + 1 else if even f then f else f + 1)"

definition round_double :: "real \<Rightarrow> real" where
  "round_double x = (if x = 0 then 0 else of_int (round_half_even (x / quantum x)) * quantum x)"


text \<open>\<open>a - b\<close> on doubles.\<close>

definition fsub :: "real \<Rightarrow> real \<Rightarrow> real" where
  "fsub a b = round_double (a - b)"

section \<open>get_dist_mat\<close>

text \<open>
  The scheduler reads the clock (\<open>time()\<close>), sleeps, calls the distance service and
  prints. The clock and the service are the environment of a run: \<open>time_at env n\<close> is
  what the \<open>n\<close>-th call of \<open>time()\<close> returns and \<open>service env n ori des\<close> is the outcome
  of the \<open>n\<close>-th request, for the address strings \<open>ori\<close> and \<open>des\<close>: the HTTP request,
  the parsing of the XML answer, the search for the element and the read of its
  \<open>text\<close>, any of which may raise. Both are arbitrary functions, so a run is
  determined by its environment and every behaviour of clock and service is some
  environment. The values of the clock are doubles.

  The text of an XML element is a string, or \<open>None\<close> for an empty element.
\<close>

datatype error = NameError | KeyError | IndexError | OracleError

datatype dist = Text string | NoText

datatype event = Sleep real | Query int int int | Print string

type_synonym dist_row = "(int \<times> dist) list"

type_synonym dist_mat_t = "(int \<times> dist_row) list"

record env =
  time_at :: "nat \<Rightarrow> real"
  service :: "nat \<Rightarrow> string \<Rightarrow> string \<Rightarrow> error + dist"

text \<open>
  The local variables of \<open>get_dist_mat\<close> (\<open>job_i\<close> is the source's \<open>i\<close>), the
  number of clock reads and of requests so far, and the trace of what the run did:
  the calls of \<open>sleep\<close>, of \<open>query_dist\<close> that returned, and of \<open>print\<close>.
\<close>

record sched =
  dist_mat :: dist_mat_t
  last_time :: real
  num_jobs_day :: nat
  job_i :: nat
  reads :: nat
  queries :: nat
  events :: "event list"

definition max_jobs_day :: nat where
  "max_jobs_day = 2500"

text \<open>The literal \<open>0.002\<close> is the double nearest to 2 / 1000.\<close>

definition time_jobs :: real where
  "time_jobs = round_double 0.002"

text \<open>
  \<open>addr_book[grp][id]\<close>: a missing group makes the \<open>defaultdict\<close> answer an empty
  dict, in which the id is missing, so a missing group and a missing id both raise
  \<open>KeyError\<close>.
\<close>

definition getitem2 :: "('a \<times> ('b \<times> 'v) list) list \<Rightarrow> 'a \<Rightarrow> 'b \<Rightarrow> error + 'v" where
  "getitem2 d a b =
     (case map_of d a of
        None \<Rightarrow> Inl KeyError
      | Some row \<Rightarrow> (case map_of row b of None \<Rightarrow> Inl KeyError | Some v \<Rightarrow> Inr v))"

text \<open>
  \<open>dist_mat[a][b] = v\<close> on a \<open>defaultdict(dict)\<close>: a missing row is created empty
  first.
\<close>

definition setitem2 :: "'a \<Rightarrow> 'b \<Rightarrow> 'v \<Rightarrow> ('a \<times> ('b \<times> 'v) list) list \<Rightarrow> ('a \<times> ('b \<times> 'v) list) list" where
  "setitem2 a b v d =
     AList.update a (AList.update b v (case map_of d a of None \<Rightarrow> [] | Some row \<Rightarrow> row)) d"

text \<open>The entry \<open>[a][b]\<close> of a matrix, \<open>None\<close> when there is none.\<close>

definition cell :: "('a \<times> ('b \<times> 'v) list) list \<Rightarrow> 'a \<Rightarrow> 'b \<Rightarrow> 'v option" where
  "cell d a b = (case map_of d a of None \<Rightarrow> None | Some row \<Rightarrow> map_of row b)"

text \<open>
  \<^verbatim>\<open>
  ori = addr_book[grp][ori_id]
  des = addr_book[grp][des_id]
  ... request, parse ...
  return val.text
  \<close>
\<close>

definition query_dist :: "env \<Rightarrow> nat \<Rightarrow> int \<Rightarrow> int \<Rightarrow> int \<Rightarrow> addr_book \<Rightarrow> error + dist" where
  "query_dist env n grp ori_id des_id addr_book =
     (case getitem2 addr_book grp ori_id of
        Inl e \<Rightarrow> Inl e
      | Inr ori \<Rightarrow>
          (case getitem2 addr_book grp des_id of
             Inl e \<Rightarrow> Inl e
           | Inr des \<Rightarrow> service env n ori des))"

text \<open>
  \<^verbatim>\<open>
  if num_jobs_day >= max_jobs_day:
      if current_time - last_time < 3600 * 24:
          sleep(wait_time)
          continue
      else:
          num_jobs_day = 0
          last_time = current_time - 0.002
  \<close>
  No assignment to \<open>wait_time\<close> exists in the function or the module, so evaluating
  the argument of \<open>sleep\<close> raises \<open>NameError\<close>; neither the sleep nor the
  \<open>continue\<close> is reached.
\<close>

definition window_check :: "sched \<Rightarrow> real \<Rightarrow> error + sched" where
  "window_check s current_time =
     (if num_jobs_day s \<ge> max_jobs_day then
        (if fsub current_time (last_time s) < 3600 * 24 then Inl NameError
         else Inr (s\<lparr>num_jobs_day := 0, last_time := fsub current_time (round_double 0.002)\<rparr>))
      else Inr s)"

text \<open>
  \<^verbatim>\<open>
  if current_time - last_time < time_jobs:
      sleep(time_jobs)
  \<close>
\<close>

definition pacing_check :: "sched \<Rightarrow> real \<Rightarrow> sched" where
  "pacing_check s current_time =
     (if fsub current_time (last_time s) < time_jobs
      then s\<lparr>events := events s @ [Sleep time_jobs]\<rparr>
      else s)"

text \<open>
  \<^verbatim>\<open>
  grp, ori_id, des_id = job_list[i]
  dist = query_dist(grp, ori_id, des_id, addr_book)
  last_time = current_time
  dist_mat[ori_id][des_id] = dist
  dist_mat[des_id][ori_id] = dist
  i += 1
  num_jobs_day += 1
  \<close>
\<close>

definition dispatch :: "env \<Rightarrow> addr_book \<Rightarrow> job list \<Rightarrow> sched \<Rightarrow> real \<Rightarrow> error + sched" where
  "dispatch env addr_book job_list s current_time =
     (if job_i s < length job_list then
        (case job_list ! job_i s of (grp, ori_id, des_id) \<Rightarrow>
           (case query_dist env (queries s) grp ori_id des_id addr_book of
              Inl e \<Rightarrow> Inl e
            | Inr d \<Rightarrow>
                Inr (s\<lparr>dist_mat := setitem2 des_id ori_id d (setitem2 ori_id des_id d (dist_mat s)),
                       last_time := current_time,
                       job_i := job_i s + 1,
                       num_jobs_day := num_jobs_day s + 1,
                       queries := queries s + 1,
                       events := events s @ [Query grp ori_id des_id]\<rparr>)))
      else Inl IndexError)"

text \<open>One pass through the body of the \<open>while\<close> loop.\<close>

definition step :: "env \<Rightarrow> addr_book \<Rightarrow> job list \<Rightarrow> sched \<Rightarrow> error + sched" where
  "step env addr_book job_list s =
     (let current_time = time_at env (reads s);
          s0 = s\<lparr>reads := reads s + 1\<rparr>
      in case window_check s0 current_time of
           Inl e \<Rightarrow> Inl e
         | Inr s1 \<Rightarrow> dispatch env addr_book job_list (pacing_check s1 current_time) current_time)"

text \<open>
  \<open>while i < num_jobs: ...\<close>. A pass that does not raise moves \<open>i\<close> on by one, which
  is why the loop ends.
\<close>

function loop :: "env \<Rightarrow> addr_book \<Rightarrow> job list \<Rightarrow> sched \<Rightarrow> error + sched" where
  "loop env addr_book job_list s =
     (if job_i s < length job_list then
        (case step env addr_book job_list s of
           Inl e \<Rightarrow> Inl e
         | Inr s' \<Rightarrow> loop env addr_book job_list s')
      else Inr s)"
  by pat_completeness auto
termination
  by (relation "measure (\<lambda>(env, addr_book, job_list, s). length job_list - job_i s)")
     (auto simp: step_def window_check_def pacing_check_def dispatch_def Let_def
           split: if_splits sum.splits prod.splits)

definition init_sched :: sched where
  "init_sched =
     \<lparr>dist_mat = [], last_time = 0, num_jobs_day = 0, job_i = 0, reads = 0, queries = 0,
      events = []\<rparr>"

text \<open>The run up to its \<open>return\<close>, with everything it did.\<close>

definition run_sched :: "env \<Rightarrow> addr_book \<Rightarrow> job list \<Rightarrow> error + sched" where
  "run_sched env addr_book job_list =
     (case loop env addr_book job_list init_sched of
        Inl e \<Rightarrow> Inl e
      | Inr s \<Rightarrow> Inr (s\<lparr>events := events s @ [Print ''Finish querying!'']\<rparr>))"

definition get_dist_mat :: "env \<Rightarrow> addr_book \<Rightarrow> job list \<Rightarrow> error + dist_mat_t" where
  "get_dist_mat env addr_book job_list =
     (case run_sched env addr_book job_list of Inl e \<Rightarrow> Inl e | Inr s \<Rightarrow> Inr (dist_mat s))"

text \<open>
  The state after the first \<open>k\<close> passes of the loop from \<open>s\<close> (after the last pass, when
  the loop ends before).
\<close>

primrec passes :: "env \<Rightarrow> addr_book \<Rightarrow> job list \<Rightarrow> nat \<Rightarrow> sched \<Rightarrow> error + sched" where
  "passes env addr_book job_list 0 s = Inr s"
| "passes env addr_book job_list (Suc k) s =
     (if job_i s < length job_list then
        (case step env addr_book job_list s of
           Inl e \<Rightarrow> Inl e
         | Inr s' \<Rightarrow> passes env addr_book job_list k s')
      else Inr s)"

subsection \<open>Notions the statements about a run use\<close>

text \<open>
  The outcome of \<open>query_dist\<close> for the \<open>j\<close>-th job when it is the \<open>j\<close>-th request, as
  it is in a run: every pass that returns makes one request.
\<close>

definition job_query :: "env \<Rightarrow> addr_book \<Rightarrow> job list \<Rightarrow> nat \<Rightarrow> error + dist" where
  "job_query env addr_book job_list j =
     (case job_list ! j of (grp, ori_id, des_id) \<Rightarrow> query_dist env j grp ori_id des_id addr_book)"

text \<open>The event of the call \<open>query_dist(grp, ori_id, des_id, addr_book)\<close> for a job.\<close>

definition is_query :: "event \<Rightarrow> bool" where
  "is_query e = (case e of Query grp ori_id des_id \<Rightarrow> True | _ \<Rightarrow> False)"

definition job_event :: "job \<Rightarrow> event" where
  "job_event j = (case j of (grp, ori_id, des_id) \<Rightarrow> Query grp ori_id des_id)"

text \<open>
  One of the first \<open>n\<close> jobs is about \<open>a\<close> and \<open>b\<close>, in this order or the other.
\<close>

definition pair_done :: "job list \<Rightarrow> nat \<Rightarrow> int \<Rightarrow> int \<Rightarrow> bool" where
  "pair_done job_list n a b =
     (\<exists>j<n. (a = job_ori (job_list ! j) \<and> b = job_des (job_list ! j)) \<or>
            (a = job_des (job_list ! j) \<and> b = job_ori (job_list ! j)))"

text \<open>
  What holds of the matrix after every pass: it is symmetric, it has an entry exactly for
  the pairs of the jobs done so far, its keys are the ids of these jobs, and it is a dict.
\<close>

definition matrix_inv :: "job list \<Rightarrow> sched \<Rightarrow> bool" where
  "matrix_inv job_list s =
     ((\<forall>a b. cell (dist_mat s) a b = cell (dist_mat s) b a) \<and>
      (\<forall>a b. cell (dist_mat s) a b \<noteq> None \<longleftrightarrow> pair_done job_list (job_i s) a b) \<and>
      fst ` set (dist_mat s) = (\<Union>j<job_i s. {job_ori (job_list ! j), job_des (job_list ! j)}) \<and>
      distinct (map fst (dist_mat s)))"

text \<open>Every entry of the matrix is \<open>v\<close>.\<close>

definition values_inv :: "dist \<Rightarrow> sched \<Rightarrow> bool" where
  "values_inv v s = (\<forall>a b x. cell (dist_mat s) a b = Some x \<longrightarrow> x = v)"

section \<open>import_addr\<close>

text \<open>
  \<^verbatim>\<open>
  id = 0
  for line in file:
      ... skip comments and empty lines, split the line at the tabs ...
      add = items[0]
      grp = int(items[1])
      addr_book[grp][id] = add
      id += 1
  return addr_book
  \<close>
  The reading and parsing of a line is left out: the input of the model is the list of
  the pairs \<open>(add, grp)\<close> of the lines that are neither comments nor empty, in file
  order. What the model keeps is how the book is filled and how the ids are numbered.
\<close>

definition add_record :: "addr_book \<times> int \<Rightarrow> string \<times> int \<Rightarrow> addr_book \<times> int" where
  "add_record st r =
     (case st of (addr_book, next_id) \<Rightarrow>
        (case r of (add, grp) \<Rightarrow> (setitem2 grp next_id add addr_book, next_id + 1)))"

definition import_records :: "(string \<times> int) list \<Rightarrow> addr_book" where
  "import_records rs = fst (foldl add_record ([], 0) rs)"

text \<open>
  What holds of the book and the counter after every line: the book is a dict of dicts,
  no id occurs twice in it, and every id is below the counter.
\<close>

definition book_inv :: "addr_book \<Rightarrow> int \<Rightarrow> bool" where
  "book_inv addr_book n =
     (addr_book_dict addr_book \<and> ids_unique addr_book \<and> (\<forall>i\<in>set (all_ids addr_book). i < n))"

section \<open>export_result\<close>

text \<open>
  \<^verbatim>\<open>
  addr_name = {}
  for addrs in addr_book.values():
      for id, addr in addrs.items():
          addr_name[id] = addr
  \<close>
\<close>

definition addr_names :: "addr_book \<Rightarrow> (int \<times> string) list" where
  "addr_names addr_book =
     fold (\<lambda>item addr_name. case item of (aid, addr) \<Rightarrow> AList.update aid addr addr_name)
       (concat (map snd addr_book)) []"

text \<open>
  A field handed to the CSV writer: a string (a name or a distance), \<open>None\<close> (the
  distance of an empty element) or an int (the default \<open>0\<close>).
\<close>

datatype csv_field = Str string | NoneField | Num int

text \<open>\<open>dist_mat[ori_id].get(des_id, 0)\<close>, for a key \<open>ori_id\<close> of the matrix.\<close>

definition get_field :: "dist_mat_t \<Rightarrow> int \<Rightarrow> int \<Rightarrow> csv_field" where
  "get_field dm ori_id des_id =
     (case cell dm ori_id des_id of
        None \<Rightarrow> Num 0
      | Some (Text t) \<Rightarrow> Str t
      | Some NoText \<Rightarrow> NoneField)"

text \<open>
  \<^verbatim>\<open>
  addr_ids = sorted(dist_mat.keys())
  header = ['sample']
  for ori_id in addr_ids:
      header.append(addr_name[ori_id])
  mat_writer.writerow(header)
  for ori_id in addr_ids:
      line = [addr_name[ori_id]]
      for des_id in addr_ids:
          line.append(dist_mat[ori_id].get(des_id, 0))
      mat_writer.writerow(line)
  \<close>
  The result is the list of the rows written, in order. \<open>addr_name[ori_id]\<close> raises
  \<open>KeyError\<close> for an id of the matrix that the address book does not have; the header
  reads every such name before the first row is written, so a run that raises has
  written no row.
\<close>

definition export_result :: "addr_book \<Rightarrow> dist_mat_t \<Rightarrow> error + csv_field list list" where
  "export_result addr_book dm =
     (let addr_name = addr_names addr_book;
          addr_ids = sort (map fst dm)
      in case those (map (map_of addr_name) addr_ids) of
           None \<Rightarrow> Inl KeyError
         | Some names \<Rightarrow>
             Inr ((Str ''sample'' # map Str names) #
                  map2 (\<lambda>ori_id name. Str name # map (get_field dm ori_id) addr_ids)
                    addr_ids names))"

section \<open>Example inputs\<close>

text \<open>
  Address books: one group of three addresses; two groups, of two and of three; a group
  of two and a group of one; one group of 72 addresses, which makes 2556 jobs. A service
  that answers 5 to every request, with a clock that starts at 1000 and moves on
  between two reads by a second (\<open>env_v\<close>) or by 1 / 1024 of a second (\<open>env_p\<close>),
  that starts in 2023 and moves on by 25 hours (\<open>env_d\<close>), or that moves on by a second
  from 2147390000 and reads 2147483649, which is \<open>2 ^ 31 + 1\<close>, at the 2501st pass
  (\<open>env_r\<close>). The other constants are states and matrices of the runs on these
  inputs; \<open>sched_r\<close> is the state of the run with \<open>env_r\<close> after 2500 passes and
  \<open>sched_r'\<close> the state after the next pass.
\<close>

definition book_a :: addr_book where
  "book_a = [(1, [(0, ''A''), (1, ''B''), (2, ''C'')])]"

definition book_b :: addr_book where
  "book_b = [(1, [(0, ''A''), (1, ''B'')]), (2, [(2, ''C''), (3, ''D''), (4, ''E'')])]"

definition book_c :: addr_book where
  "book_c = [(1, [(0, ''A''), (1, ''B'')]), (2, [(2, ''C'')])]"

definition book72 :: addr_book where
  "book72 = [(1, map (\<lambda>n. (int n, ''X'')) [0..<72])]"

definition env_v :: env where
  "env_v = \<lparr>time_at = (\<lambda>n. 1000 + real n), service = (\<lambda>n ori des. Inr (Text ''5''))\<rparr>"

definition env_p :: env where
  "env_p = \<lparr>time_at = (\<lambda>n. 1000 + real n / 1024), service = (\<lambda>n ori des. Inr (Text ''5''))\<rparr>"





definition mat_a :: dist_mat_t where
  "mat_a = [(0, [(1, Text ''5''), (2, Text ''5'')]), (1, [(0, Text ''5''), (2, Text ''5'')]),
            (2, [(0, Text ''5''), (1, Text ''5'')])]"

definition mat_b :: dist_mat_t where
  "mat_b = [(0, [(1, Text ''5'')]), (1, [(0, Text ''5'')]),
            (2, [(3, Text ''5''), (4, Text ''5'')]), (3, [(2, Text ''5''), (4, Text ''5'')]),
            (4, [(2, Text ''5''), (3, Text ''5'')])]"

definition mat_c :: dist_mat_t where
  "mat_c = [(0, [(1, Text ''5'')]), (1, [(0, Text ''5'')])]"

definition sched_a2 :: sched where
  "sched_a2 =
     \<lparr>dist_mat = [(0, [(1, Text ''5''), (2, Text ''5'')]), (1, [(0, Text ''5'')]), (2, [(0, Text ''5'')])],
      last_time = 1001, num_jobs_day = 2, job_i = 2, reads = 2, queries = 2,
      events = [Query 1 0 1, Query 1 0 2]\<rparr>"

definition sched_a :: sched where
  "sched_a =
     \<lparr>dist_mat = mat_a, last_time = 1002, num_jobs_day = 3, job_i = 3, reads = 3, queries = 3,
      events = [Query 1 0 1, Query 1 0 2, Query 1 1 2, Print ''Finish querying!'']\<rparr>"

definition sched_p1 :: sched where
  "sched_p1 =
     \<lparr>dist_mat = [(0, [(1, Text ''5'')]), (1, [(0, Text ''5'')])],
      last_time = 1000, num_jobs_day = 1, job_i = 1, reads = 1, queries = 1,
      events = [Query 1 0 1]\<rparr>"

definition sched_p2 :: sched where
  "sched_p2 =
     \<lparr>dist_mat = [(0, [(1, Text ''5''), (2, Text ''5'')]), (1, [(0, Text ''5'')]), (2, [(0, Text ''5'')])],
      last_time = 1000 + 1 / 1024, num_jobs_day = 2, job_i = 2, reads = 2, queries = 2,
      events = [Query 1 0 1, Sleep time_jobs, Query 1 0 2]\<rparr>"

section \<open>Properties of create_jobs\<close>

lemma length_combinations2: "length (combinations2 xs) = length xs choose 2"
  by (induction xs) (simp_all add: numeral_2_eq_2)

lemma set_combinations2_subset:
  "(a, b) \<in> set (combinations2 xs) \<Longrightarrow> a \<in> set xs \<and> b \<in> set xs"
  by (induction xs) auto

lemma combinations2_neq:
  "distinct xs \<Longrightarrow> (a, b) \<in> set (combinations2 xs) \<Longrightarrow> a \<noteq> b"
  by (induction xs) (auto dest: set_combinations2_subset)

lemma combinations2_no_reverse:
  "distinct xs \<Longrightarrow> (a, b) \<in> set (combinations2 xs) \<Longrightarrow> (b, a) \<notin> set (combinations2 xs)"
  by (induction xs) (auto dest: set_combinations2_subset)

lemma distinct_combinations2: "distinct xs \<Longrightarrow> distinct (combinations2 xs)"
  by (induction xs) (auto simp: distinct_map inj_on_def dest: set_combinations2_subset)

lemma combinations2_cover:
  "a \<in> set xs \<Longrightarrow> b \<in> set xs \<Longrightarrow> a \<noteq> b \<Longrightarrow>
   (a, b) \<in> set (combinations2 xs) \<or> (b, a) \<in> set (combinations2 xs)"
  by (induction xs) auto

lemma length_group_jobs: "length (group_jobs item) = length (snd item) choose 2"
  by (cases item) (simp add: group_jobs_def length_combinations2)

lemma length_create_jobs:
  "length (create_jobs addr_book) = sum_list (map (\<lambda>item. length (snd item) choose 2) addr_book)"
  by (induction addr_book) (simp_all add: create_jobs_def length_group_jobs)

lemma group_jobs_mem:
  "(grp, a, b) \<in> set (group_jobs (g, adds)) \<longleftrightarrow> grp = g \<and> (a, b) \<in> set (combinations2 (map fst adds))"
  by (auto simp: group_jobs_def image_iff)

lemma set_create_jobs:
  "(grp, a, b) \<in> set (create_jobs addr_book) \<longleftrightarrow>
     (\<exists>adds. (grp, adds) \<in> set addr_book \<and> (a, b) \<in> set (combinations2 (map fst adds)))"
  by (force simp: create_jobs_def group_jobs_mem)

lemma distinct_pairs_combinations2:
  "distinct xs \<Longrightarrow> distinct (map (\<lambda>p. {fst p, snd p}) (combinations2 xs))"
proof (induction xs)
  case Nil
  then show ?case by simp
next
  case (Cons x xs)
  have inj: "inj_on (\<lambda>y. {x, y}) (set xs)"
    by (auto simp: inj_on_def doubleton_eq_iff)
  have disj: "(\<lambda>y. {x, y}) ` set xs \<inter> (\<lambda>p. {fst p, snd p}) ` set (combinations2 xs) = {}"
    using Cons.prems by (auto simp: doubleton_eq_iff dest: set_combinations2_subset)
  from Cons.prems have "distinct xs" by simp
  with Cons.IH have "distinct (map (\<lambda>p. {fst p, snd p}) (combinations2 xs))" .
  with inj disj Cons.prems show ?case
    by (simp add: distinct_map comp_def image_image)
qed

lemma job_pair_group_jobs:
  "map job_pair (group_jobs (g, adds)) = map (\<lambda>p. {fst p, snd p}) (combinations2 (map fst adds))"
  by (simp add: group_jobs_def job_pair_def comp_def case_prod_beta)

lemma job_pair_subset:
  "j \<in> set (group_jobs (g, adds)) \<Longrightarrow> job_pair j \<subseteq> set (map fst adds) \<and> job_pair j \<noteq> {}"
  by (auto simp: group_jobs_def job_pair_def dest: set_combinations2_subset)

lemma job_pair_create_jobs_subset:
  "j \<in> set (create_jobs addr_book) \<Longrightarrow> job_pair j \<subseteq> set (all_ids addr_book) \<and> job_pair j \<noteq> {}"
proof -
  assume "j \<in> set (create_jobs addr_book)"
  then obtain g adds where m: "(g, adds) \<in> set addr_book" and j: "j \<in> set (group_jobs (g, adds))"
    by (auto simp: create_jobs_def)
  from m have "set (map fst adds) \<subseteq> set (all_ids addr_book)"
    by (force simp: all_ids_def)
  with job_pair_subset[OF j] show ?thesis by blast
qed

lemma distinct_job_pairs:
  "ids_unique addr_book \<Longrightarrow> distinct (map job_pair (create_jobs addr_book))"
  unfolding ids_unique_def
proof (induction addr_book)
  case Nil
  then show ?case by (simp add: create_jobs_def)
next
  case (Cons item addr_book)
  obtain g adds where item: "item = (g, adds)" by (cases item)
  from Cons.prems have d1: "distinct (map fst adds)" and d2: "distinct (all_ids addr_book)"
    and d3: "set (map fst adds) \<inter> set (all_ids addr_book) = {}"
    by (auto simp: all_ids_def item)
  have a: "distinct (map job_pair (group_jobs item))"
    unfolding item job_pair_group_jobs using d1 by (rule distinct_pairs_combinations2)
  have b: "distinct (map job_pair (create_jobs addr_book))"
    using Cons.IH d2 by simp
  have c: "job_pair ` set (group_jobs item) \<inter> job_pair ` set (create_jobs addr_book) = {}"
  proof (rule ccontr)
    assume "\<not> ?thesis"
    then obtain j j' where j: "j \<in> set (group_jobs item)" and j': "j' \<in> set (create_jobs addr_book)"
      and eq: "job_pair j = job_pair j'" by auto
    from j have "job_pair j \<subseteq> set (map fst adds) \<and> job_pair j \<noteq> {}"
      unfolding item by (rule job_pair_subset)
    moreover from j' have "job_pair j' \<subseteq> set (all_ids addr_book)"
      by (simp add: job_pair_create_jobs_subset)
    ultimately show False using d3 eq by auto
  qed
  have "create_jobs (item # addr_book) = group_jobs item @ create_jobs addr_book"
    by (simp add: create_jobs_def)
  with a b c show ?case by simp
qed

lemma job_grp_group_jobs: "j \<in> set (group_jobs (g, adds)) \<Longrightarrow> job_grp j = g"
  by (auto simp: group_jobs_def job_grp_def)

lemma job_grp_create_jobs: "j \<in> set (create_jobs addr_book) \<Longrightarrow> job_grp j \<in> fst ` set addr_book"
proof -
  assume "j \<in> set (create_jobs addr_book)"
  then obtain g adds where m: "(g, adds) \<in> set addr_book" and j: "j \<in> set (group_jobs (g, adds))"
    by (auto simp: create_jobs_def)
  from m job_grp_group_jobs[OF j] show ?thesis by force
qed

lemma distinct_grp_pairs:
  "addr_book_dict addr_book \<Longrightarrow> distinct (map (\<lambda>j. (job_grp j, job_pair j)) (create_jobs addr_book))"
proof (induction addr_book)
  case Nil
  then show ?case by (simp add: create_jobs_def)
next
  case (Cons item addr_book)
  obtain g adds where item: "item = (g, adds)" by (cases item)
  from Cons.prems have d1: "distinct (map fst adds)" and g: "g \<notin> fst ` set addr_book"
    and rest: "addr_book_dict addr_book"
    by (auto simp: item addr_book_dict_def is_dict_def)
  have "distinct (map job_pair (group_jobs item))"
    unfolding item job_pair_group_jobs using d1 by (rule distinct_pairs_combinations2)
  then have a: "distinct (map (\<lambda>j. (job_grp j, job_pair j)) (group_jobs item))"
    by (auto simp: distinct_map inj_on_def)
  have b: "distinct (map (\<lambda>j. (job_grp j, job_pair j)) (create_jobs addr_book))"
    using Cons.IH rest by simp
  have c: "(\<lambda>j. (job_grp j, job_pair j)) ` set (group_jobs item) \<inter>
           (\<lambda>j. (job_grp j, job_pair j)) ` set (create_jobs addr_book) = {}"
  proof (rule ccontr)
    assume "\<not> ?thesis"
    then obtain j j' where j: "j \<in> set (group_jobs item)" and j': "j' \<in> set (create_jobs addr_book)"
      and eq: "job_grp j = job_grp j'" by auto
    from j have "job_grp j = g" unfolding item by (rule job_grp_group_jobs)
    with job_grp_create_jobs[OF j'] eq g show False by simp
  qed
  have "create_jobs (item # addr_book) = group_jobs item @ create_jobs addr_book"
    by (simp add: create_jobs_def)
  with a b c show ?case by simp
qed

lemma create_jobs_in_group:
  assumes "addr_book_dict addr_book" and "(grp, a, b) \<in> set (create_jobs addr_book)"
  shows "a \<noteq> b \<and> in_group addr_book grp a \<and> in_group addr_book grp b"
proof -
  from assms(2) obtain adds where m: "(grp, adds) \<in> set addr_book"
    and p: "(a, b) \<in> set (combinations2 (map fst adds))"
    by (auto simp: set_create_jobs)
  from assms(1) m have look: "map_of addr_book grp = Some adds"
    by (simp add: addr_book_dict_def is_dict_def)
  from assms(1) m have "distinct (map fst adds)"
    by (auto simp: addr_book_dict_def is_dict_def list_all_iff)
  with p have "a \<noteq> b" by (rule combinations2_neq[rotated])
  moreover from p have "a \<in> set (map fst adds) \<and> b \<in> set (map fst adds)"
    by (rule set_combinations2_subset)
  ultimately show ?thesis by (simp add: in_group_def look)
qed

section \<open>The address book of import_addr\<close>

lemma setitem2_Nil: "setitem2 a b v [] = [(a, [(b, v)])]"
  by (simp add: setitem2_def)

lemma setitem2_Cons:
  "setitem2 a b v ((a', row) # d) =
     (if a' = a then (a, AList.update b v row) # d else (a', row) # setitem2 a b v d)"
  by (simp add: setitem2_def)

lemma distinct_setitem2: "distinct (map fst d) \<Longrightarrow> distinct (map fst (setitem2 a b v d))"
  by (simp add: setitem2_def distinct_update)

lemma all_ids_setitem2:
  "n \<notin> set (all_ids addr_book) \<Longrightarrow> distinct (all_ids addr_book) \<Longrightarrow>
   distinct (all_ids (setitem2 grp n add addr_book)) \<and>
   set (all_ids (setitem2 grp n add addr_book)) = insert n (set (all_ids addr_book))"
proof (induction addr_book)
  case Nil
  show ?case by (simp add: setitem2_Nil all_ids_def)
next
  case (Cons item addr_book)
  obtain g row where item: "item = (g, row)" by (cases item)
  show ?case
  proof (cases "g = grp")
    case True
    from Cons.prems have "n \<notin> set (map fst row)" by (simp add: all_ids_def item)
    then have "map fst (AList.update n add row) = map fst row @ [n]"
      by (simp add: update_keys)
    with Cons.prems True show ?thesis
      by (auto simp: item setitem2_Cons all_ids_def)
  next
    case False
    from Cons.prems have "n \<notin> set (all_ids addr_book)" "distinct (all_ids addr_book)"
      by (simp_all add: all_ids_def item)
    from Cons.IH[OF this] Cons.prems False show ?thesis
      by (auto simp: item setitem2_Cons all_ids_def)
  qed
qed

lemma inner_dicts_setitem2:
  "list_all is_dict (map snd d) \<Longrightarrow> list_all is_dict (map snd (setitem2 a b v d))"
proof (induction d)
  case Nil
  show ?case by (simp add: setitem2_Nil is_dict_def)
next
  case (Cons item d)
  obtain g row where item: "item = (g, row)" by (cases item)
  from Cons show ?case
    by (simp add: item setitem2_Cons is_dict_def distinct_update)
qed

lemma book_inv_add_record:
  assumes "book_inv addr_book n"
  shows "book_inv (setitem2 grp n add addr_book) (n + 1)"
proof -
  from assms have d: "is_dict addr_book" and i: "list_all is_dict (map snd addr_book)"
    and u: "distinct (all_ids addr_book)" and b: "\<forall>i\<in>set (all_ids addr_book). i < n"
    by (simp_all add: book_inv_def addr_book_dict_def ids_unique_def)
  from b have "n \<notin> set (all_ids addr_book)" by auto
  from all_ids_setitem2[OF this u, of grp add] b
  have "distinct (all_ids (setitem2 grp n add addr_book))"
    "\<forall>i\<in>set (all_ids (setitem2 grp n add addr_book)). i < n + 1"
    by auto
  moreover from d have "is_dict (setitem2 grp n add addr_book)"
    unfolding is_dict_def by (rule distinct_setitem2)
  moreover from i have "list_all is_dict (map snd (setitem2 grp n add addr_book))"
    by (rule inner_dicts_setitem2)
  ultimately show ?thesis
    by (simp add: book_inv_def addr_book_dict_def ids_unique_def)
qed

lemma foldl_add_record_inv:
  "book_inv addr_book n \<Longrightarrow>
   book_inv (fst (foldl add_record (addr_book, n) rs)) (snd (foldl add_record (addr_book, n) rs))"
proof (induction rs arbitrary: addr_book n)
  case Nil
  then show ?case by simp
next
  case (Cons r rs)
  obtain add grp where r: "r = (add, grp)" by (cases r)
  from Cons.prems have "book_inv (setitem2 grp n add addr_book) (n + 1)"
    by (rule book_inv_add_record)
  from Cons.IH[OF this] show ?case by (simp add: r add_record_def)
qed

lemma import_records_book: "addr_book_dict (import_records rs) \<and> ids_unique (import_records rs)"
proof -
  have "book_inv [] 0"
    by (simp add: book_inv_def addr_book_dict_def is_dict_def ids_unique_def all_ids_def)
  from foldl_add_record_inv[OF this, of rs] show ?thesis
    by (simp add: import_records_def book_inv_def)
qed

lemma import_records_book_a: "import_records [(''A'', 1), (''B'', 1), (''C'', 1)] = book_a"
  by (simp add: import_records_def add_record_def setitem2_def book_a_def)

lemma import_records_book_b:
  "import_records [(''A'', 1), (''B'', 1), (''C'', 2), (''D'', 2), (''E'', 2)] = book_b"
  by (simp add: import_records_def add_record_def setitem2_def book_b_def)

section \<open>Rounding to doubles\<close>

lemma expo_bounds:
  assumes "x \<noteq> 0"
  shows "2 powi expo x \<le> \<bar>x\<bar> \<and> \<bar>x\<bar> < 2 powi (expo x + 1)"
proof (cases "1 \<le> \<bar>x\<bar>")
  case True
  let ?n = "\<lfloor>\<bar>x\<bar>\<rfloor>"
  from True have n: "0 < ?n" by linarith
  then have b: "1 \<le> bitlen ?n" by (simp add: bitlen_alt_def)
  from bitlen_bounds[OF n] have lo: "2 ^ nat (bitlen ?n - 1) \<le> ?n" and hi: "?n < 2 ^ nat (bitlen ?n)"
    by simp_all
  from lo have "real_of_int (2 ^ nat (bitlen ?n - 1)) \<le> real_of_int ?n"
    by (simp only: of_int_le_iff)
  then have "(2::real) ^ nat (bitlen ?n - 1) \<le> real_of_int ?n" by simp
  also have "\<dots> \<le> \<bar>x\<bar>" by linarith
  finally have 1: "(2::real) ^ nat (bitlen ?n - 1) \<le> \<bar>x\<bar>" .
  from hi have "?n + 1 \<le> 2 ^ nat (bitlen ?n)" by simp
  then have "real_of_int (?n + 1) \<le> real_of_int (2 ^ nat (bitlen ?n))"
    by (simp only: of_int_le_iff)
  then have "real_of_int ?n + 1 \<le> (2::real) ^ nat (bitlen ?n)" by simp
  moreover have "\<bar>x\<bar> < real_of_int ?n + 1" by linarith
  ultimately have 2: "\<bar>x\<bar> < (2::real) ^ nat (bitlen ?n)" by linarith
  from True b have e: "expo x = bitlen ?n - 1" by (simp add: expo_def)
  from b have "(2::real) powi (bitlen ?n - 1) = 2 ^ nat (bitlen ?n - 1)"
    "(2::real) powi (bitlen ?n - 1 + 1) = 2 ^ nat (bitlen ?n)"
    by (simp_all add: power_int_def)
  with 1 2 e show ?thesis by simp
next
  case False
  let ?y = "1 / \<bar>x\<bar>"
  let ?k = "\<lceil>?y\<rceil> - 1"
  from False assms have x: "0 < \<bar>x\<bar>" "\<bar>x\<bar> < 1" by simp_all
  then have y: "1 < ?y" by simp
  then have k: "0 < ?k" by linarith
  have ky: "real_of_int ?k < ?y" "?y \<le> real_of_int ?k + 1" by linarith+
  from k have b: "1 \<le> bitlen ?k" by (simp add: bitlen_alt_def)
  from bitlen_bounds[OF k] have lo: "2 ^ nat (bitlen ?k - 1) \<le> ?k" and hi: "?k < 2 ^ nat (bitlen ?k)"
    by simp_all
  from lo have "real_of_int (2 ^ nat (bitlen ?k - 1)) \<le> real_of_int ?k"
    by (simp only: of_int_le_iff)
  then have "(2::real) ^ nat (bitlen ?k - 1) \<le> real_of_int ?k" by simp
  with ky have 1: "(2::real) ^ nat (bitlen ?k - 1) < ?y" by linarith
  from hi have "?k + 1 \<le> 2 ^ nat (bitlen ?k)" by simp
  then have "real_of_int (?k + 1) \<le> real_of_int (2 ^ nat (bitlen ?k))"
    by (simp only: of_int_le_iff)
  then have "real_of_int ?k + 1 \<le> (2::real) ^ nat (bitlen ?k)" by simp
  with ky have 2: "?y \<le> (2::real) ^ nat (bitlen ?k)" by linarith
  from False have e: "expo x = - bitlen ?k" by (simp add: expo_def)
  from b have p1: "(2::real) powi (- bitlen ?k) = 1 / 2 ^ nat (bitlen ?k)"
    by (simp add: power_int_def field_simps)
  have "(2::real) powi (- bitlen ?k + 1) = 2 powi (- (bitlen ?k - 1))" by simp
  also from b have "\<dots> = 1 / 2 ^ nat (bitlen ?k - 1)"
    by (simp only: power_int_minus) (simp add: power_int_def field_simps)
  finally have p2: "(2::real) powi (- bitlen ?k + 1) = 1 / 2 ^ nat (bitlen ?k - 1)" .
  from 2 x have "1 / 2 ^ nat (bitlen ?k) \<le> \<bar>x\<bar>"
    by (simp add: field_simps)
  then have lower: "2 powi expo x \<le> \<bar>x\<bar>" unfolding e p1 .
  from 1 x have "\<bar>x\<bar> < 1 / 2 ^ nat (bitlen ?k - 1)"
    by (simp add: field_simps)
  then have "\<bar>x\<bar> < 2 powi (expo x + 1)" unfolding e p2 .
  with lower show ?thesis by blast
qed

lemma expo_eqI:
  assumes "2 powi e \<le> \<bar>x\<bar>" "\<bar>x\<bar> < 2 powi (e + 1)"
  shows "expo x = e"
proof -
  have "(0::real) < 2 powi e" by simp
  with assms(1) have "0 < \<bar>x\<bar>" by linarith
  then have "x \<noteq> 0" by auto
  from expo_bounds[OF this] have b: "2 powi expo x \<le> \<bar>x\<bar>" "\<bar>x\<bar> < 2 powi (expo x + 1)"
    by simp_all
  have "e < expo x + 1"
  proof (rule ccontr)
    assume "\<not> e < expo x + 1"
    then have "(2::real) powi (expo x + 1) \<le> 2 powi e"
      by (intro power_int_increasing) simp_all
    with assms(1) b(2) show False by linarith
  qed
  moreover have "expo x < e + 1"
  proof (rule ccontr)
    assume "\<not> expo x < e + 1"
    then have "(2::real) powi (e + 1) \<le> 2 powi expo x"
      by (intro power_int_increasing) simp_all
    with assms(2) b(1) show False by linarith
  qed
  ultimately show ?thesis by simp
qed

lemma expo_log:
  assumes "x \<noteq> 0"
  shows "expo x = \<lfloor>log 2 \<bar>x\<bar>\<rfloor>"
proof -
  from assms have pos: "0 < \<bar>x\<bar>" by simp
  from expo_bounds[OF assms] have b: "2 powi expo x \<le> \<bar>x\<bar>" "\<bar>x\<bar> < 2 powi (expo x + 1)"
    by simp_all
  have p: "(2::real) powi k = 2 powr real_of_int k" for k
    by (simp add: powr_real_of_int')
  from b(1) pos have "real_of_int (expo x) \<le> log 2 \<bar>x\<bar>"
    by (simp add: p le_log_iff)
  moreover from b(2) pos have "log 2 \<bar>x\<bar> < real_of_int (expo x) + 1"
    by (simp add: p log_less_iff)
  ultimately show ?thesis by linarith
qed

lemma round_half_even_down:
  "0 \<le> d \<Longrightarrow> d < 1 / 2 \<Longrightarrow> round_half_even (of_int j + d) = j"
proof -
  assume d: "0 \<le> d" "d < 1 / 2"
  then have "\<lfloor>of_int j + d\<rfloor> = j" by linarith
  with d show ?thesis by (simp add: round_half_even_def Let_def)
qed


lemma round_half_even_of_int: "round_half_even (of_int j) = j"
  using round_half_even_down[of 0 j] by simp

lemma round_double_binade:
  assumes "2 powi e \<le> \<bar>x\<bar>" "\<bar>x\<bar> < 2 powi (e + 1)" "- 1022 \<le> e"
  shows "round_double x = of_int (round_half_even (x / 2 powi (e - 52))) * 2 powi (e - 52)"
proof -
  have "(0::real) < 2 powi e" by simp
  with assms(1) have "0 < \<bar>x\<bar>" by linarith
  then have "x \<noteq> 0" by auto
  moreover from assms(1,2) have "expo x = e" by (rule expo_eqI)
  moreover from assms(3) have "max (e - 52) (- 1074) = e - 52" by simp
  ultimately show ?thesis by (simp add: round_double_def quantum_def)
qed

lemma round_double_multiple:
  assumes "2 powi e \<le> \<bar>x\<bar>" "\<bar>x\<bar> < 2 powi (e + 1)" "- 1022 \<le> e"
    and "x = of_int k * 2 powi (e - 52)"
  shows "round_double x = x"
proof -
  have "x / 2 powi (e - 52) = of_int k" by (simp add: assms(4))
  with round_double_binade[OF assms(1-3)] show ?thesis
    by (simp add: round_half_even_of_int assms(4))
qed


lemma time_jobs_value: "time_jobs = 4611686018427388 / 2 ^ 61"
  unfolding time_jobs_def by code_simp

lemma time_jobs_bounds: "0 < time_jobs \<and> time_jobs < 3600 * 24 \<and> \<bar>time_jobs - 2 / 1000\<bar> < 1 / 10 ^ 19"
  by (simp add: time_jobs_value)






section \<open>The loop of get_dist_mat\<close>

lemma cell_setitem2:
  "cell (setitem2 a b v d) x y = (if x = a \<and> y = b then Some v else cell d x y)"
  by (auto simp: cell_def setitem2_def update_conv' split: option.splits)

lemma cell_setitem2_both:
  "cell (setitem2 des_id ori_id d (setitem2 ori_id des_id d m)) a b =
     (if (a = ori_id \<and> b = des_id) \<or> (a = des_id \<and> b = ori_id) then Some d
      else cell m a b)"
  apply (simp only: cell_setitem2)
  apply (cases "a = ori_id"; cases "b = des_id"; cases "a = des_id"; cases "b = ori_id"; simp)
  done

lemma keys_setitem2: "fst ` set (setitem2 a b v d) = insert a (fst ` set d)"
  by (simp add: setitem2_def dom_update)

lemma cell_keys: "cell d a b = Some v \<Longrightarrow> a \<in> fst ` set d"
  by (auto simp: cell_def split: option.splits dest: map_of_SomeD intro: rev_image_eqI)

lemma step_Inr:
  assumes "step env addr_book job_list s = Inr s'"
  obtains grp ori_id des_id d where
    "job_i s < length job_list"
    "job_list ! job_i s = (grp, ori_id, des_id)"
    "query_dist env (queries s) grp ori_id des_id addr_book = Inr d"
    "dist_mat s' = setitem2 des_id ori_id d (setitem2 ori_id des_id d (dist_mat s))"
    "last_time s' = time_at env (reads s)"
    "job_i s' = job_i s + 1"
    "num_jobs_day s' = (if max_jobs_day \<le> num_jobs_day s then 0 else num_jobs_day s) + 1"
    "reads s' = reads s + 1"
    "queries s' = queries s + 1"
    "events s' = events s @
       (if fsub (time_at env (reads s))
             (if max_jobs_day \<le> num_jobs_day s
              then fsub (time_at env (reads s)) (round_double 0.002) else last_time s) < time_jobs
        then [Sleep time_jobs] else [])
       @ [Query grp ori_id des_id]"
    "max_jobs_day \<le> num_jobs_day s \<longrightarrow> 3600 * 24 \<le> fsub (time_at env (reads s)) (last_time s)"
  using assms
  by (auto simp: step_def window_check_def pacing_check_def dispatch_def Let_def
           split: if_splits sum.splits prod.splits)

lemma passes_invariant:
  assumes "passes env addr_book job_list k s0 = Inr s"
    and "P s0"
    and "\<And>s s'. P s \<Longrightarrow> job_i s < length job_list \<Longrightarrow> step env addr_book job_list s = Inr s' \<Longrightarrow> P s'"
  shows "P s"
  using assms(1,2)
proof (induction k arbitrary: s0)
  case 0
  then show ?case by simp
next
  case (Suc k)
  show ?case
  proof (cases "job_i s0 < length job_list")
    case True
    with Suc.prems(1) obtain s1 where s1: "step env addr_book job_list s0 = Inr s1"
      and rest: "passes env addr_book job_list k s1 = Inr s"
      by (auto split: sum.splits)
    from assms(3)[OF Suc.prems(2) True s1] have "P s1" .
    with Suc.IH rest show ?thesis by blast
  next
    case False
    with Suc.prems show ?thesis by simp
  qed
qed

lemma loop_passes:
  "length job_list - job_i s \<le> k \<Longrightarrow>
   loop env addr_book job_list s = passes env addr_book job_list k s"
proof (induction k arbitrary: s)
  case 0
  then show ?case by simp
next
  case (Suc k)
  show ?case
  proof (cases "job_i s < length job_list")
    case True
    show ?thesis
    proof (cases "step env addr_book job_list s")
      case (Inl e)
      with True show ?thesis by simp
    next
      case (Inr s1)
      then have "job_i s1 = job_i s + 1" by (rule step_Inr)
      with Suc.prems have "length job_list - job_i s1 \<le> k" by simp
      then have "loop env addr_book job_list s1 = passes env addr_book job_list k s1"
        by (rule Suc.IH)
      with True Inr show ?thesis by simp
    qed
  next
    case False
    then show ?thesis by simp
  qed
qed

lemma passes_job_i_from:
  "passes env addr_book job_list k s0 = Inr s \<Longrightarrow> job_i s0 \<le> length job_list \<Longrightarrow>
   job_i s = min (job_i s0 + k) (length job_list)"
proof (induction k arbitrary: s0)
  case 0
  then show ?case by simp
next
  case (Suc k)
  show ?case
  proof (cases "job_i s0 < length job_list")
    case True
    with Suc.prems(1) obtain s1 where s1: "step env addr_book job_list s0 = Inr s1"
      and rest: "passes env addr_book job_list k s1 = Inr s"
      by (auto split: sum.splits)
    from s1 have j: "job_i s1 = job_i s0 + 1" by (rule step_Inr)
    with True have "job_i s1 \<le> length job_list" by simp
    with Suc.IH[OF rest] j show ?thesis by simp
  next
    case False
    with Suc.prems show ?thesis by simp
  qed
qed

lemma passes_counters:
  assumes "passes env addr_book job_list k init_sched = Inr s"
  shows "job_i s = min k (length job_list) \<and> reads s = job_i s \<and> queries s = job_i s"
proof -
  have "job_i s = min k (length job_list)"
    using passes_job_i_from[OF assms] by (simp add: init_sched_def)
  moreover have "reads s = job_i s \<and> queries s = job_i s"
    using assms
  proof (rule passes_invariant)
    show "reads init_sched = job_i init_sched \<and> queries init_sched = job_i init_sched"
      by (simp add: init_sched_def)
  next
    fix s s' assume "reads s = job_i s \<and> queries s = job_i s"
      and "step env addr_book job_list s = Inr s'"
    then show "reads s' = job_i s' \<and> queries s' = job_i s'"
      by (auto elim!: step_Inr)
  qed
  ultimately show ?thesis by simp
qed

lemma run_sched_passes:
  "run_sched env addr_book job_list = Inr s \<Longrightarrow>
   \<exists>s1. passes env addr_book job_list (length job_list) init_sched = Inr s1 \<and>
        s = s1\<lparr>events := events s1 @ [Print ''Finish querying!'']\<rparr>"
  using loop_passes[of job_list init_sched "length job_list" env addr_book]
  by (auto simp: run_sched_def split: sum.splits)

lemma get_dist_mat_passes:
  "get_dist_mat env addr_book job_list = Inr m \<longleftrightarrow>
   (\<exists>s. passes env addr_book job_list (length job_list) init_sched = Inr s \<and> m = dist_mat s)"
  using loop_passes[of job_list init_sched "length job_list" env addr_book]
  by (auto simp: get_dist_mat_def run_sched_def split: sum.splits)

lemma passes_Suc_end:
  "passes env addr_book job_list (Suc k) s0 =
     (case passes env addr_book job_list k s0 of
        Inl e \<Rightarrow> Inl e
      | Inr s \<Rightarrow> if job_i s < length job_list then step env addr_book job_list s else Inr s)"
proof (induction k arbitrary: s0)
  case 0
  show ?case by (simp split: sum.splits)
next
  case (Suc k)
  show ?case
  proof (cases "job_i s0 < length job_list")
    case True
    show ?thesis
    proof (cases "step env addr_book job_list s0")
      case (Inl e)
      with True show ?thesis by simp
    next
      case (Inr s1)
      have "passes env addr_book job_list (Suc (Suc k)) s0 = passes env addr_book job_list (Suc k) s1"
        using True Inr by simp
      also have "\<dots> = (case passes env addr_book job_list k s1 of
        Inl e \<Rightarrow> Inl e
      | Inr s \<Rightarrow> if job_i s < length job_list then step env addr_book job_list s else Inr s)"
        by (rule Suc.IH)
      also have "passes env addr_book job_list k s1 = passes env addr_book job_list (Suc k) s0"
        using True Inr by simp
      finally show ?thesis .
    qed
  next
    case False
    then show ?thesis by simp
  qed
qed

lemma passes_Inl_mono:
  "passes env addr_book job_list k s0 = Inl e \<Longrightarrow> passes env addr_book job_list (k + n) s0 = Inl e"
  by (induction n) (simp_all add: passes_Suc_end del: passes.simps)

lemma window_wait_step:
  "max_jobs_day \<le> num_jobs_day s \<Longrightarrow> fsub (time_at env (reads s)) (last_time s) < 3600 * 24 \<Longrightarrow>
   step env addr_book job_list s = Inl NameError"
  by (simp add: step_def window_check_def Let_def)

lemma step_ok:
  assumes "num_jobs_day s < max_jobs_day" "job_i s < length job_list"
    "job_query env addr_book job_list (job_i s) = Inr d" "queries s = job_i s"
  shows "\<exists>s'. step env addr_book job_list s = Inr s' \<and> job_i s' = job_i s + 1 \<and>
      num_jobs_day s' = num_jobs_day s + 1 \<and> queries s' = queries s + 1 \<and>
      reads s' = reads s + 1 \<and> last_time s' = time_at env (reads s)"
  using assms
  by (auto simp: step_def window_check_def pacing_check_def dispatch_def Let_def job_query_def
           split: prod.splits)


lemma passes_ok:
  assumes q: "\<forall>j<k. \<exists>d. job_query env addr_book job_list j = Inr d"
    and k: "k \<le> length job_list" "k \<le> max_jobs_day"
  shows "\<exists>s. passes env addr_book job_list k init_sched = Inr s \<and> job_i s = k \<and>
      num_jobs_day s = k \<and> queries s = k \<and> reads s = k \<and>
      (0 < k \<longrightarrow> last_time s = time_at env (k - 1))"
  using assms
proof (induction k)
  case 0
  show ?case by (simp add: init_sched_def)
next
  case (Suc k)
  then obtain s where p: "passes env addr_book job_list k init_sched = Inr s"
    and s: "job_i s = k" "num_jobs_day s = k" "queries s = k" "reads s = k"
    by auto
  from Suc.prems obtain d where d: "job_query env addr_book job_list (job_i s) = Inr d"
    using s by auto
  from Suc.prems s have "num_jobs_day s < max_jobs_day" "job_i s < length job_list" by simp_all
  from step_ok[OF this d] s obtain s' where
    s': "step env addr_book job_list s = Inr s'" "job_i s' = Suc k" "num_jobs_day s' = Suc k"
      "queries s' = Suc k" "reads s' = Suc k" "last_time s' = time_at env k"
    by auto
  from p s' s Suc.prems have "passes env addr_book job_list (Suc k) init_sched = Inr s'"
    by (simp add: passes_Suc_end del: passes.simps)
  with s' show ?case by simp
qed

lemma get_dist_mat_ok:
  assumes "\<forall>j<length job_list. \<exists>d. job_query env addr_book job_list j = Inr d"
    and "length job_list \<le> max_jobs_day"
  shows "\<exists>m. get_dist_mat env addr_book job_list = Inr m"
proof -
  from passes_ok[OF assms(1) _ assms(2)] obtain s where
    "passes env addr_book job_list (length job_list) init_sched = Inr s" by auto
  then show ?thesis by (auto simp: get_dist_mat_passes)
qed

section \<open>The matrix a run builds\<close>

lemma pair_done_Suc:
  "pair_done job_list (Suc n) a b \<longleftrightarrow>
     pair_done job_list n a b \<or>
     (a = job_ori (job_list ! n) \<and> b = job_des (job_list ! n)) \<or>
     (a = job_des (job_list ! n) \<and> b = job_ori (job_list ! n))"
  by (auto simp: pair_done_def less_Suc_eq)

lemma matrix_inv_init: "matrix_inv job_list init_sched"
  by (simp add: matrix_inv_def init_sched_def cell_def pair_done_def)

lemma matrix_inv_step:
  assumes inv: "matrix_inv job_list s" and st: "step env addr_book job_list s = Inr s'"
  shows "matrix_inv job_list s'"
proof -
  from st obtain grp ori_id des_id d where
    j: "job_list ! job_i s = (grp, ori_id, des_id)"
    and m: "dist_mat s' = setitem2 des_id ori_id d (setitem2 ori_id des_id d (dist_mat s))"
    and i0: "job_i s' = job_i s + 1"
    by (rule step_Inr) blast
  from i0 have i: "job_i s' = Suc (job_i s)" by simp
  have c: "cell (dist_mat s') a b =
      (if (a = ori_id \<and> b = des_id) \<or> (a = des_id \<and> b = ori_id) then Some d
       else cell (dist_mat s) a b)" for a b
    unfolding m by (rule cell_setitem2_both)
  from j have od: "job_ori (job_list ! job_i s) = ori_id" "job_des (job_list ! job_i s) = des_id"
    by (simp_all add: job_ori_def job_des_def)
  from inv have sym: "cell (dist_mat s) a b = cell (dist_mat s) b a" for a b
    by (simp add: matrix_inv_def)
  from inv have dn: "cell (dist_mat s) a b \<noteq> None \<longleftrightarrow> pair_done job_list (job_i s) a b" for a b
    by (simp add: matrix_inv_def)
  from inv have keys: "fst ` set (dist_mat s) = (\<Union>j<job_i s. {job_ori (job_list ! j), job_des (job_list ! j)})"
    by (simp add: matrix_inv_def)
  from inv have dist: "distinct (map fst (dist_mat s))"
    by (simp add: matrix_inv_def)
  have 1: "\<forall>a b. cell (dist_mat s') a b = cell (dist_mat s') b a"
    using sym by (auto simp: c)
  have 2: "\<forall>a b. cell (dist_mat s') a b \<noteq> None \<longleftrightarrow> pair_done job_list (job_i s') a b"
    using dn by (auto simp: c i pair_done_Suc od)
  have 3: "fst ` set (dist_mat s') = (\<Union>j<job_i s'. {job_ori (job_list ! j), job_des (job_list ! j)})"
    unfolding m keys_setitem2 keys i lessThan_Suc by (auto simp: od)
  have 4: "distinct (map fst (dist_mat s'))"
    unfolding m using dist by (intro distinct_setitem2)
  from 1 2 3 4 show ?thesis by (simp add: matrix_inv_def)
qed

lemma passes_matrix_inv:
  "passes env addr_book job_list k init_sched = Inr s \<Longrightarrow> matrix_inv job_list s"
  by (erule passes_invariant) (auto intro: matrix_inv_init matrix_inv_step)

lemma getitem2_in_group:
  "in_group addr_book grp a \<Longrightarrow> \<exists>x. getitem2 addr_book grp a = Inr x"
proof -
  assume "in_group addr_book grp a"
  then obtain adds where 1: "map_of addr_book grp = Some adds" and "a \<in> fst ` set adds"
    by (auto simp: in_group_def split: option.splits)
  then obtain x where "map_of adds a = Some x"
    by (metis map_of_eq_None_iff not_None_eq)
  with 1 show ?thesis by (simp add: getitem2_def)
qed

lemma create_jobs_query:
  assumes d: "addr_book_dict addr_book" and s: "\<forall>n ori des. \<exists>v. service env n ori des = Inr v"
    and j: "j < length (create_jobs addr_book)"
  shows "\<exists>v. job_query env addr_book (create_jobs addr_book) j = Inr v"
proof -
  obtain grp a b where e: "create_jobs addr_book ! j = (grp, a, b)"
    by (cases "create_jobs addr_book ! j")
  with j have "(grp, a, b) \<in> set (create_jobs addr_book)"
    by (metis nth_mem)
  with d have "in_group addr_book grp a" "in_group addr_book grp b"
    by (simp_all add: create_jobs_in_group)
  then obtain x y where "getitem2 addr_book grp a = Inr x" "getitem2 addr_book grp b = Inr y"
    by (blast dest: getitem2_in_group)
  with s e show ?thesis
    by (simp add: job_query_def query_dist_def)
qed

lemma passes_values_inv:
  assumes s: "\<forall>n ori des. service env n ori des = Inr v"
    and p: "passes env addr_book job_list k init_sched = Inr s"
  shows "values_inv v s"
  using p
proof (rule passes_invariant)
  show "values_inv v init_sched"
    by (simp add: values_inv_def init_sched_def cell_def)
next
  fix s s' assume inv: "values_inv v s" and st: "step env addr_book job_list s = Inr s'"
  from st obtain grp ori_id des_id d where
    q: "query_dist env (queries s) grp ori_id des_id addr_book = Inr d"
    and m: "dist_mat s' = setitem2 des_id ori_id d (setitem2 ori_id des_id d (dist_mat s))"
    by (rule step_Inr) blast
  from q s have "d = v"
    by (auto simp: query_dist_def split: sum.splits)
  with inv show "values_inv v s'"
    unfolding values_inv_def m cell_setitem2_both by auto
qed

lemma pair_done_create_jobs:
  assumes "(grp, adds) \<in> set addr_book" "a \<in> fst ` set adds" "b \<in> fst ` set adds" "a \<noteq> b"
  shows "pair_done (create_jobs addr_book) (length (create_jobs addr_book)) a b"
proof -
  from assms have "(a, b) \<in> set (combinations2 (map fst adds)) \<or> (b, a) \<in> set (combinations2 (map fst adds))"
    by (intro combinations2_cover) simp_all
  with assms(1) have "(grp, a, b) \<in> set (create_jobs addr_book) \<or> (grp, b, a) \<in> set (create_jobs addr_book)"
    by (auto simp: set_create_jobs)
  then obtain j where "j < length (create_jobs addr_book)"
    "create_jobs addr_book ! j = (grp, a, b) \<or> create_jobs addr_book ! j = (grp, b, a)"
    by (auto simp: in_set_conv_nth)
  then show ?thesis
    by (auto simp: pair_done_def job_ori_def job_des_def)
qed

lemma matrix_keys_lemma:
  assumes d: "addr_book_dict addr_book"
    and g: "get_dist_mat env addr_book (create_jobs addr_book) = Inr m"
  shows "(\<forall>a. cell m a a = None)
       \<and> fst ` set m = {a. \<exists>j \<in> set (create_jobs addr_book). a = job_ori j \<or> a = job_des j}
       \<and> (\<forall>a b. cell m a b \<noteq> None \<longrightarrow> (\<exists>j \<in> set (create_jobs addr_book). job_pair j = {a, b}))
       \<and> (\<forall>a. (\<forall>grp adds. (grp, adds) \<in> set addr_book \<and> a \<in> fst ` set adds \<longrightarrow> length adds = 1) \<longrightarrow>
              a \<notin> fst ` set m \<and> (\<forall>b. cell m b a = None))"
proof -
  let ?jobs = "create_jobs addr_book"
  from g obtain s where
    p: "passes env addr_book ?jobs (length ?jobs) init_sched = Inr s"
    and m: "m = dist_mat s"
    by (auto simp: get_dist_mat_passes)
  from p have i: "job_i s = length ?jobs" by (simp add: passes_counters)
  from p have inv: "matrix_inv ?jobs s" by (rule passes_matrix_inv)
  from inv i have cells: "cell m a b \<noteq> None \<longleftrightarrow> pair_done ?jobs (length ?jobs) a b" for a b
    by (simp add: matrix_inv_def m)
  from inv i have keys: "fst ` set m = (\<Union>j<length ?jobs. {job_ori (?jobs ! j), job_des (?jobs ! j)})"
    by (simp add: matrix_inv_def m)
  have neq: "job_ori j \<noteq> job_des j" if "j \<in> set ?jobs" for j
    using create_jobs_in_group[OF d, of "fst j" "fst (snd j)" "snd (snd j)"] that
    by (simp add: job_ori_def job_des_def case_prod_beta)
  have pd: "pair_done ?jobs (length ?jobs) a b \<longleftrightarrow>
      (\<exists>j \<in> set ?jobs. (a = job_ori j \<and> b = job_des j) \<or> (a = job_des j \<and> b = job_ori j))" for a b
    unfolding pair_done_def by (metis in_set_conv_nth)
  have 1: "\<forall>a. cell m a a = None"
  proof
    fix a
    have "\<not> pair_done ?jobs (length ?jobs) a a"
      unfolding pd using neq by metis
    with cells show "cell m a a = None" by blast
  qed
  have 2: "fst ` set m = {a. \<exists>j \<in> set ?jobs. a = job_ori j \<or> a = job_des j}"
    unfolding keys
  proof (intro set_eqI iffI)
    fix a assume "a \<in> (\<Union>j<length ?jobs. {job_ori (?jobs ! j), job_des (?jobs ! j)})"
    then obtain j where j: "j < length ?jobs"
      and a: "a = job_ori (?jobs ! j) \<or> a = job_des (?jobs ! j)" by auto
    from j have "?jobs ! j \<in> set ?jobs" by (rule nth_mem)
    with a show "a \<in> {a. \<exists>j \<in> set ?jobs. a = job_ori j \<or> a = job_des j}" by blast
  next
    fix a assume "a \<in> {a. \<exists>j \<in> set ?jobs. a = job_ori j \<or> a = job_des j}"
    then obtain x where x: "x \<in> set ?jobs" and a: "a = job_ori x \<or> a = job_des x" by auto
    from x obtain j where "j < length ?jobs" "?jobs ! j = x" by (auto simp: in_set_conv_nth)
    with a show "a \<in> (\<Union>j<length ?jobs. {job_ori (?jobs ! j), job_des (?jobs ! j)})"
      by (auto intro!: bexI[of _ j])
  qed
  have 3: "\<forall>a b. cell m a b \<noteq> None \<longrightarrow> (\<exists>j \<in> set ?jobs. job_pair j = {a, b})"
  proof (intro allI impI)
    fix a b assume "cell m a b \<noteq> None"
    with cells pd obtain j where "j \<in> set ?jobs"
      "(a = job_ori j \<and> b = job_des j) \<or> (a = job_des j \<and> b = job_ori j)" by blast
    then have "j \<in> set ?jobs \<and> job_pair j = {a, b}"
      by (auto simp: job_pair_def job_ori_def job_des_def case_prod_beta)
    then show "\<exists>j \<in> set ?jobs. job_pair j = {a, b}" by blast
  qed
  have 4: "a \<notin> fst ` set m \<and> (\<forall>b. cell m b a = None)"
    if one: "\<forall>grp adds. (grp, adds) \<in> set addr_book \<and> a \<in> fst ` set adds \<longrightarrow> length adds = 1" for a
  proof -
    have no: "a \<noteq> job_ori j \<and> a \<noteq> job_des j" if j: "j \<in> set ?jobs" for j
    proof -
      obtain grp x y where e: "j = (grp, x, y)" by (cases j)
      with j obtain adds where ad: "(grp, adds) \<in> set addr_book"
        and c: "(x, y) \<in> set (combinations2 (map fst adds))"
        by (auto simp: set_create_jobs)
      from c have xy: "x \<in> set (map fst adds)" "y \<in> set (map fst adds)"
        by (auto dest: set_combinations2_subset)
      have "length adds \<noteq> 1"
      proof
        assume "length adds = 1"
        then obtain z where "adds = [z]" by (cases adds) auto
        with c show False by simp
      qed
      with one ad have "a \<notin> fst ` set adds" by blast
      with xy show ?thesis by (auto simp: e job_ori_def job_des_def)
    qed
    then have k: "a \<notin> fst ` set m" unfolding 2 by blast
    have "cell m b a = None" for b
    proof -
      have "\<not> pair_done ?jobs (length ?jobs) b a" unfolding pd using no by metis
      with cells show ?thesis by blast
    qed
    with k show ?thesis by blast
  qed
  from 1 2 3 4 show ?thesis by blast
qed

lemma is_query_simps:
  "is_query (Query grp a b)" "\<not> is_query (Sleep t)" "\<not> is_query (Print x)"
  "is_query (job_event j)"
  by (simp_all add: is_query_def job_event_def split: prod.splits)

lemma step_queries:
  assumes "step env addr_book job_list s = Inr s'"
  shows "filter is_query (events s') =
     filter is_query (events s) @ [job_event (job_list ! job_i s)]"
proof -
  from assms obtain grp ori_id des_id where
    j: "job_list ! job_i s = (grp, ori_id, des_id)"
    and e: "events s' = events s @
       (if fsub (time_at env (reads s))
             (if max_jobs_day \<le> num_jobs_day s
              then fsub (time_at env (reads s)) (round_double 0.002) else last_time s) < time_jobs
        then [Sleep time_jobs] else [])
       @ [Query grp ori_id des_id]"
    by (rule step_Inr) blast
  show ?thesis unfolding e j by (simp add: is_query_simps job_event_def)
qed

lemma passes_queries:
  assumes "passes env addr_book job_list k init_sched = Inr s"
  shows "filter is_query (events s) = map job_event (take (job_i s) job_list)"
  using assms
proof (rule passes_invariant)
  show "filter is_query (events init_sched) = map job_event (take (job_i init_sched) job_list)"
    by (simp add: init_sched_def)
next
  fix s s'
  assume inv: "filter is_query (events s) = map job_event (take (job_i s) job_list)"
    and lt: "job_i s < length job_list"
    and st: "step env addr_book job_list s = Inr s'"
  from st have "job_i s' = Suc (job_i s)" by (rule step_Inr) simp
  with step_queries[OF st] inv lt
  show "filter is_query (events s') = map job_event (take (job_i s') job_list)"
    by (simp add: take_Suc_conv_app_nth)
qed

section \<open>The rows of export_result\<close>

lemma fold_update_keys:
  "fst ` set (fold (\<lambda>item acc. case item of (aid, addr) \<Rightarrow> AList.update aid addr acc) xs acc) =
     fst ` set xs \<union> fst ` set acc"
proof (induction xs arbitrary: acc)
  case Nil
  show ?case by simp
next
  case (Cons x xs)
  obtain k v where x: "x = (k, v)" by (cases x)
  have "fst ` set (fold (\<lambda>item acc. case item of (aid, addr) \<Rightarrow> AList.update aid addr acc) xs
      (AList.update k v acc)) = fst ` set xs \<union> fst ` set (AList.update k v acc)"
    by (rule Cons.IH)
  then show ?case by (simp add: x dom_update Un_commute insert_commute)
qed

lemma fold_update_lookup:
  "map_of (fold (\<lambda>item acc. case item of (aid, addr) \<Rightarrow> AList.update aid addr acc) xs acc) i = Some a \<Longrightarrow>
     (i, a) \<in> set xs \<or> map_of acc i = Some a"
proof (induction xs arbitrary: acc)
  case Nil
  then show ?case by simp
next
  case (Cons x xs)
  obtain k v where x: "x = (k, v)" by (cases x)
  from Cons.prems have "map_of (fold (\<lambda>item acc. case item of (aid, addr) \<Rightarrow> AList.update aid addr acc) xs
      (AList.update k v acc)) i = Some a"
    by (simp add: x)
  from Cons.IH[OF this] show ?case
    by (auto simp: x update_conv' split: if_splits)
qed

lemma addr_names_keys: "fst ` set (addr_names addr_book) = set (all_ids addr_book)"
proof -
  have "fst ` set (concat (map snd addr_book)) = set (all_ids addr_book)"
    by (force simp: all_ids_def)
  then show ?thesis by (simp add: addr_names_def fold_update_keys)
qed

lemma addr_names_lookup:
  assumes "map_of (addr_names addr_book) i = Some a"
  shows "\<exists>grp adds. (grp, adds) \<in> set addr_book \<and> (i, a) \<in> set adds"
proof -
  from assms have "(i, a) \<in> set (concat (map snd addr_book))"
    unfolding addr_names_def by (auto dest: fold_update_lookup)
  then show ?thesis by force
qed

lemma those_map_Some:
  "\<forall>i\<in>set ids. f i \<noteq> None \<Longrightarrow> those (map f ids) = Some (map (\<lambda>i. the (f i)) ids)"
  by (induction ids) auto

section \<open>The example runs\<close>

lemma jobs_a: "create_jobs book_a = [(1, 0, 1), (1, 0, 2), (1, 1, 2)]"
  by (simp add: create_jobs_def group_jobs_def book_a_def)

lemma passes_a2: "passes env_v book_a (create_jobs book_a) 2 init_sched = Inr sched_a2"
  by code_simp

lemma get_dist_mat_a: "get_dist_mat env_v book_a (create_jobs book_a) = Inr mat_a"
  by code_simp

lemma get_dist_mat_b: "get_dist_mat env_v book_b (create_jobs book_b) = Inr mat_b"
  by code_simp

lemma get_dist_mat_c: "get_dist_mat env_v book_c (create_jobs book_c) = Inr mat_c"
  by code_simp

lemma run_sched_a: "run_sched env_v book_a (create_jobs book_a) = Inr sched_a"
  by code_simp

lemma env_v_service: "\<forall>n ori des. service env_v n ori des = Inr (Text ''5'')"
  by (simp add: env_v_def)


lemma book_a_dict: "addr_book_dict book_a"
  by (simp add: addr_book_dict_def is_dict_def book_a_def)

lemma book_b_dict: "addr_book_dict book_b"
  by (simp add: addr_book_dict_def is_dict_def book_b_def)

lemma book_c_dict: "addr_book_dict book_c"
  by (simp add: addr_book_dict_def is_dict_def book_c_def)

lemma book72_dict: "addr_book_dict book72"
  by (simp add: addr_book_dict_def is_dict_def book72_def comp_def distinct_map inj_on_def)

lemma length_jobs72: "length (create_jobs book72) = 2556"
  by (simp add: length_create_jobs book72_def choose_two)

lemma fsub_v: "fsub 3500 3499 = 1"
  by code_simp

lemma passes_p1: "passes env_p book_a (create_jobs book_a) 1 init_sched = Inr sched_p1"
  by code_simp

lemma step_p2: "step env_p book_a (create_jobs book_a) sched_p1 = Inr sched_p2"
  by code_simp

lemma elapsed_p: "fsub (time_at env_p (reads sched_p1)) (last_time sched_p1) = 1 / 1024"
  by code_simp

lemma remaining_p: "fsub time_jobs (1 / 1024) < time_jobs"
  by code_simp

lemma export_b: "export_result book_b mat_b =
     Inr [[Str ''sample'', Str ''A'', Str ''B'', Str ''C'', Str ''D'', Str ''E''],
          [Str ''A'', Num 0, Str ''5'', Num 0, Num 0, Num 0],
          [Str ''B'', Str ''5'', Num 0, Num 0, Num 0, Num 0],
          [Str ''C'', Num 0, Num 0, Num 0, Str ''5'', Str ''5''],
          [Str ''D'', Num 0, Num 0, Str ''5'', Num 0, Str ''5''],
          [Str ''E'', Num 0, Num 0, Str ''5'', Str ''5'', Num 0]]"
  by code_simp

lemma export_c: "export_result book_c mat_c =
     Inr [[Str ''sample'', Str ''A'', Str ''B''],
          [Str ''A'', Num 0, Str ''5''],
          [Str ''B'', Str ''5'', Num 0]]"
  by code_simp










section \<open>The claims\<close>

text \<open>
  Claim C1. For an address book that is a dict of dicts, \<open>create_jobs\<close> returns as
  many jobs as the sum over the groups of "size of the group choose 2"; the two ids of
  every job differ and both are ids of the job's group; no two jobs have the same group
  and the same unordered pair of ids; and when every id occurs once in the whole book,
  as in every book that \<open>import_addr\<close> fills (\<open>import_records_book\<close>), no two jobs
  have the same unordered pair at all.
\<close>

theorem create_jobs_pairs:
  assumes "addr_book_dict addr_book"
  shows "length (create_jobs addr_book) = sum_list (map (\<lambda>item. length (snd item) choose 2) addr_book)
    \<and> (\<forall>grp ori_id des_id. (grp, ori_id, des_id) \<in> set (create_jobs addr_book) \<longrightarrow>
          ori_id \<noteq> des_id \<and> in_group addr_book grp ori_id \<and> in_group addr_book grp des_id)
    \<and> distinct (map (\<lambda>j. (job_grp j, job_pair j)) (create_jobs addr_book))
    \<and> (ids_unique addr_book \<longrightarrow> distinct (map job_pair (create_jobs addr_book)))"
  using assms length_create_jobs create_jobs_in_group distinct_grp_pairs distinct_job_pairs
  by blast

theorem create_jobs_pairs_witness:
  "addr_book_dict book_b \<and> ids_unique book_b
   \<and> create_jobs book_b = [(1, 0, 1), (2, 2, 3), (2, 2, 4), (2, 3, 4)]
   \<and> length (create_jobs book_b) = 4
   \<and> in_group book_b 2 3 \<and> in_group book_b 2 4
   \<and> distinct (map job_pair (create_jobs book_b))"
proof -
  have d: "addr_book_dict book_b"
    by (simp add: addr_book_dict_def is_dict_def book_b_def)
  have u: "ids_unique book_b"
    by (simp add: ids_unique_def all_ids_def book_b_def)
  have j: "create_jobs book_b = [(1, 0, 1), (2, 2, 3), (2, 2, 4), (2, 3, 4)]"
    by (simp add: create_jobs_def group_jobs_def book_b_def)
  have s: "sum_list (map (\<lambda>item. length (snd item) choose 2) book_b) = 4"
    by (simp add: book_b_def numeral_2_eq_2 numeral_3_eq_3)
  from create_jobs_pairs[OF d] u j s show ?thesis
    using d by simp
qed

text \<open>
  Claim C2. For every job list, address book, clock and service: after any number \<open>k\<close>
  of passes of the loop that did not raise, the cursor is at \<open>min k (length job_list)\<close>
  and for every job \<open>(g, o, d)\<close> before the cursor the matrix has an entry at \<open>[o][d]\<close>
  and the entry at \<open>[d][o]\<close> is the same; and when \<open>get_dist_mat\<close> returns a matrix,
  this holds in it for every job of the list.
\<close>

theorem dist_mat_symmetric:
  "(passes env addr_book job_list k init_sched = Inr s \<longrightarrow>
      job_i s = min k (length job_list) \<and>
      (\<forall>j<job_i s.
         cell (dist_mat s) (job_ori (job_list ! j)) (job_des (job_list ! j)) \<noteq> None \<and>
         cell (dist_mat s) (job_ori (job_list ! j)) (job_des (job_list ! j)) =
         cell (dist_mat s) (job_des (job_list ! j)) (job_ori (job_list ! j))))
   \<and> (get_dist_mat env addr_book job_list = Inr m \<longrightarrow>
      (\<forall>j<length job_list.
         cell m (job_ori (job_list ! j)) (job_des (job_list ! j)) \<noteq> None \<and>
         cell m (job_ori (job_list ! j)) (job_des (job_list ! j)) =
         cell m (job_des (job_list ! j)) (job_ori (job_list ! j))))"
proof -
  have a: "job_i s = min k (length job_list) \<and>
      (\<forall>j<job_i s.
         cell (dist_mat s) (job_ori (job_list ! j)) (job_des (job_list ! j)) \<noteq> None \<and>
         cell (dist_mat s) (job_ori (job_list ! j)) (job_des (job_list ! j)) =
         cell (dist_mat s) (job_des (job_list ! j)) (job_ori (job_list ! j)))"
    if p: "passes env addr_book job_list k init_sched = Inr s" for k s
  proof -
    from p have inv: "matrix_inv job_list s" by (rule passes_matrix_inv)
    from p have i: "job_i s = min k (length job_list)" by (simp add: passes_counters)
    from inv have sym: "cell (dist_mat s) a b = cell (dist_mat s) b a" for a b
      by (simp add: matrix_inv_def)
    from inv have "cell (dist_mat s) (job_ori (job_list ! j)) (job_des (job_list ! j)) \<noteq> None"
      if "j < job_i s" for j
      using that by (auto simp: matrix_inv_def pair_done_def)
    with i sym show ?thesis by blast
  qed
  have b: "\<forall>j<length job_list.
         cell m (job_ori (job_list ! j)) (job_des (job_list ! j)) \<noteq> None \<and>
         cell m (job_ori (job_list ! j)) (job_des (job_list ! j)) =
         cell m (job_des (job_list ! j)) (job_ori (job_list ! j))"
    if g: "get_dist_mat env addr_book job_list = Inr m"
  proof -
    from g obtain s where p: "passes env addr_book job_list (length job_list) init_sched = Inr s"
      and m: "m = dist_mat s"
      by (auto simp: get_dist_mat_passes)
    from a[OF p] have "job_i s = length job_list" by simp
    with a[OF p] show ?thesis unfolding m by metis
  qed
  from a b show ?thesis by blast
qed

theorem dist_mat_symmetric_witness:
  "passes env_v book_a (create_jobs book_a) 2 init_sched = Inr sched_a2
   \<and> job_i sched_a2 = 2
   \<and> cell (dist_mat sched_a2) 0 2 = Some (Text ''5'')
   \<and> cell (dist_mat sched_a2) 2 0 = Some (Text ''5'')
   \<and> get_dist_mat env_v book_a (create_jobs book_a) = Inr mat_a
   \<and> cell mat_a 1 2 = Some (Text ''5'')
   \<and> cell mat_a 2 1 = Some (Text ''5'')"
  using dist_mat_symmetric[of env_v book_a "create_jobs book_a" 2 sched_a2 mat_a]
    passes_a2 get_dist_mat_a
  by (simp add: sched_a2_def mat_a_def cell_def)

text \<open>
  Claim C3 says that with the counter at the cap and less than a day since
  \<open>last_time\<close> the scheduler waits and tries the same job again. The code raises
  \<open>NameError\<close> there: the argument \<open>wait_time\<close> of the sleep is a name that is never
  assigned. A pass from any such state raises; and a run on more jobs than the cap
  whose first \<open>max_jobs_day\<close> requests return, with less than a day between the last
  of these passes and the next, ends with this error and returns no matrix.
\<close>

theorem window_wait_raises:
  "(max_jobs_day \<le> num_jobs_day s \<and> fsub (time_at env (reads s)) (last_time s) < 3600 * 24 \<longrightarrow>
      step env addr_book job_list s = Inl NameError)
   \<and> (max_jobs_day < length job_list \<and>
      (\<forall>j<max_jobs_day. \<exists>d. job_query env addr_book job_list j = Inr d) \<and>
      fsub (time_at env max_jobs_day) (time_at env (max_jobs_day - 1)) < 3600 * 24 \<longrightarrow>
      get_dist_mat env addr_book job_list = Inl NameError)"
proof -
  have "get_dist_mat env addr_book job_list = Inl NameError"
    if len: "max_jobs_day < length job_list"
      and q: "\<forall>j<max_jobs_day. \<exists>d. job_query env addr_book job_list j = Inr d"
      and t: "fsub (time_at env max_jobs_day) (time_at env (max_jobs_day - 1)) < 3600 * 24"
  proof -
    from len have "max_jobs_day \<le> length job_list" by simp
    from passes_ok[OF q this] obtain s1 where
      p: "passes env addr_book job_list max_jobs_day init_sched = Inr s1"
      and s1: "job_i s1 = max_jobs_day" "num_jobs_day s1 = max_jobs_day" "reads s1 = max_jobs_day"
        "last_time s1 = time_at env (max_jobs_day - 1)"
      by (auto simp: max_jobs_day_def)
    from s1 t have "step env addr_book job_list s1 = Inl NameError"
      by (intro window_wait_step) simp_all
    with p s1 len have "passes env addr_book job_list (Suc max_jobs_day) init_sched = Inl NameError"
      by (simp add: passes_Suc_end del: passes.simps)
    then have "passes env addr_book job_list
        (Suc max_jobs_day + (length job_list - Suc max_jobs_day)) init_sched = Inl NameError"
      by (rule passes_Inl_mono)
    moreover from len have "Suc max_jobs_day + (length job_list - Suc max_jobs_day) = length job_list"
      by simp
    ultimately have "passes env addr_book job_list (length job_list) init_sched = Inl NameError"
      by (simp only:)
    moreover have "loop env addr_book job_list init_sched =
        passes env addr_book job_list (length job_list) init_sched"
      by (rule loop_passes) simp
    ultimately show ?thesis
      by (simp add: get_dist_mat_def run_sched_def)
  qed
  then show ?thesis using window_wait_step by blast
qed

theorem window_wait_raises_witness:
  "(\<exists>s. passes env_v book72 (create_jobs book72) max_jobs_day init_sched = Inr s
      \<and> max_jobs_day \<le> num_jobs_day s
      \<and> fsub (time_at env_v (reads s)) (last_time s) < 3600 * 24
      \<and> step env_v book72 (create_jobs book72) s = Inl NameError)
   \<and> max_jobs_day < length (create_jobs book72)
   \<and> fsub (time_at env_v max_jobs_day) (time_at env_v (max_jobs_day - 1)) < 3600 * 24
   \<and> get_dist_mat env_v book72 (create_jobs book72) = Inl NameError"
proof -
  let ?jobs = "create_jobs book72"
  have 3: "max_jobs_day < length ?jobs"
    by (simp add: length_jobs72 max_jobs_day_def)
  have 4: "fsub (time_at env_v max_jobs_day) (time_at env_v (max_jobs_day - 1)) < 3600 * 24"
    by (simp add: env_v_def max_jobs_day_def fsub_v)
  have 5: "\<forall>j<max_jobs_day. \<exists>d. job_query env_v book72 ?jobs j = Inr d"
    using 3 env_v_service by (auto intro!: create_jobs_query book72_dict)
  from passes_ok[OF 5] 3 obtain s where
    p: "passes env_v book72 ?jobs max_jobs_day init_sched = Inr s"
    and s: "num_jobs_day s = max_jobs_day" "reads s = max_jobs_day"
      "last_time s = time_at env_v (max_jobs_day - 1)"
    by (auto simp: max_jobs_day_def)
  from s have 1: "max_jobs_day \<le> num_jobs_day s" by simp
  from s 4 have 2: "fsub (time_at env_v (reads s)) (last_time s) < 3600 * 24" by simp
  from window_wait_raises[of s env_v book72 ?jobs] 1 2 3 4 5
  have "step env_v book72 ?jobs s = Inl NameError"
    and "get_dist_mat env_v book72 ?jobs = Inl NameError"
    by blast+
  with p 1 2 3 4 show ?thesis by blast
qed

text \<open>
  Claim C4, amended. In a pass that reaches the pacing check with less than
  \<open>time_jobs\<close> since \<open>last_time\<close>, the scheduler sleeps once, for the whole of
  \<open>time_jobs\<close>, the double of 0.002 (not for what remains of it), and then goes on to the request:
  when the pass returns, what it added to the trace is this one sleep and the request;
  and when the counter is below the cap, the pass is the request made after this one
  sleep. The claim as stated has the sleep last \<open>time_jobs\<close> minus the time since
  \<open>last_time\<close>; on the second job of a run whose clock reads are 1 / 1024 of a second
  apart this would be about 0.001, and the code sleeps 0.002.
\<close>

theorem pacing_sleep:
  "(step env addr_book job_list s = Inr s' \<and> fsub (time_at env (reads s)) (last_time s) < time_jobs \<longrightarrow>
      events s' = events s @ [Sleep time_jobs, job_event (job_list ! job_i s)])
   \<and> (num_jobs_day s < max_jobs_day \<and> fsub (time_at env (reads s)) (last_time s) < time_jobs \<longrightarrow>
      step env addr_book job_list s =
        dispatch env addr_book job_list
          (s\<lparr>reads := reads s + 1, events := events s @ [Sleep time_jobs]\<rparr>)
          (time_at env (reads s)))
   \<and> time_jobs = 4611686018427388 / 2 ^ 61 \<and> \<bar>time_jobs - 2 / 1000\<bar> < 1 / 10 ^ 19"
proof -
  have 1: "events s' = events s @ [Sleep time_jobs, job_event (job_list ! job_i s)]"
    if st: "step env addr_book job_list s = Inr s'"
      and t: "fsub (time_at env (reads s)) (last_time s) < time_jobs"
  proof -
    from st obtain grp ori_id des_id where
      j: "job_list ! job_i s = (grp, ori_id, des_id)"
      and e: "events s' = events s @
       (if fsub (time_at env (reads s))
             (if max_jobs_day \<le> num_jobs_day s
              then fsub (time_at env (reads s)) (round_double 0.002) else last_time s) < time_jobs
        then [Sleep time_jobs] else [])
       @ [Query grp ori_id des_id]"
      and w: "max_jobs_day \<le> num_jobs_day s \<longrightarrow> 3600 * 24 \<le> fsub (time_at env (reads s)) (last_time s)"
      by (rule step_Inr) blast
    from t w time_jobs_bounds have "\<not> max_jobs_day \<le> num_jobs_day s"
      by auto
    with e t j show ?thesis by (simp add: job_event_def)
  qed
  have 2: "step env addr_book job_list s =
        dispatch env addr_book job_list
          (s\<lparr>reads := reads s + 1, events := events s @ [Sleep time_jobs]\<rparr>)
          (time_at env (reads s))"
    if "num_jobs_day s < max_jobs_day" "fsub (time_at env (reads s)) (last_time s) < time_jobs"
    using that by (simp add: step_def window_check_def pacing_check_def Let_def)
  from 1 2 time_jobs_value time_jobs_bounds show ?thesis by blast
qed

theorem pacing_sleep_witness:
  "step env_p book_a (create_jobs book_a) sched_p1 = Inr sched_p2
   \<and> fsub (time_at env_p (reads sched_p1)) (last_time sched_p1) < time_jobs
   \<and> num_jobs_day sched_p1 < max_jobs_day
   \<and> events sched_p2 = [Query 1 0 1, Sleep time_jobs, Query 1 0 2]"
proof -
  have t: "fsub (time_at env_p (reads sched_p1)) (last_time sched_p1) < time_jobs"
    unfolding elapsed_p by (simp add: time_jobs_value)
  have n: "num_jobs_day sched_p1 < max_jobs_day"
    by (simp add: sched_p1_def max_jobs_day_def)
  from pacing_sleep[of env_p book_a "create_jobs book_a" sched_p1 sched_p2] step_p2 t
  have "events sched_p2 = events sched_p1 @ [Sleep time_jobs, job_event (create_jobs book_a ! job_i sched_p1)]"
    by blast
  then have "events sched_p2 = [Query 1 0 1, Sleep time_jobs, Query 1 0 2]"
    by (simp add: sched_p1_def jobs_a job_event_def)
  with step_p2 t n show ?thesis by simp
qed

theorem pacing_remaining_counterexample:
  "passes env_p book_a (create_jobs book_a) 1 init_sched = Inr sched_p1
   \<and> step env_p book_a (create_jobs book_a) sched_p1 = Inr sched_p2
   \<and> fsub (time_at env_p (reads sched_p1)) (last_time sched_p1) = 1 / 1024
   \<and> fsub time_jobs (fsub (time_at env_p (reads sched_p1)) (last_time sched_p1)) < time_jobs
   \<and> events sched_p2 = events sched_p1 @ [Sleep time_jobs, Query 1 0 2]"
proof -
  have r: "fsub time_jobs (fsub (time_at env_p (reads sched_p1)) (last_time sched_p1)) < time_jobs"
    unfolding elapsed_p by (rule remaining_p)
  have e: "events sched_p2 = events sched_p1 @ [Sleep time_jobs, Query 1 0 2]"
    by (simp add: sched_p1_def sched_p2_def)
  from passes_p1 step_p2 elapsed_p r e show ?thesis by blast
qed




text \<open>
  Claim C6. A pass that returns has read the clock once, at its start, and leaves
  \<open>last_time\<close> at this reading; the counter is one more than it was at the request
  (than zero, when the window check reset it), the cursor one more than before, and the
  pass added the request for the job at the cursor to the requests of the trace. After
  \<open>k\<close> passes the requests made are those of the first \<open>k\<close> jobs, in the order of
  the list. A run that returns has the cursor at the end of the list, has made the
  requests of all jobs in the order of the list, has printed last, and what
  \<open>get_dist_mat\<close> returns is the matrix of its last state.
\<close>

theorem dispatch_bookkeeping:
  "(step env addr_book job_list s = Inr s' \<longrightarrow>
      last_time s' = time_at env (reads s) \<and> reads s' = reads s + 1 \<and>
      num_jobs_day s' = (if max_jobs_day \<le> num_jobs_day s then 0 else num_jobs_day s) + 1 \<and>
      job_i s' = job_i s + 1 \<and>
      filter is_query (events s') = filter is_query (events s) @ [job_event (job_list ! job_i s)])
   \<and> (passes env addr_book job_list k init_sched = Inr s1 \<longrightarrow>
      job_i s1 = min k (length job_list) \<and>
      filter is_query (events s1) = map job_event (take k job_list))
   \<and> (run_sched env addr_book job_list = Inr s2 \<longrightarrow>
      job_i s2 = length job_list \<and>
      filter is_query (events s2) = map job_event job_list \<and>
      last (events s2) = Print ''Finish querying!'' \<and>
      get_dist_mat env addr_book job_list = Inr (dist_mat s2))"
proof -
  have 1: "last_time s' = time_at env (reads s) \<and> reads s' = reads s + 1 \<and>
      num_jobs_day s' = (if max_jobs_day \<le> num_jobs_day s then 0 else num_jobs_day s) + 1 \<and>
      job_i s' = job_i s + 1 \<and>
      filter is_query (events s') = filter is_query (events s) @ [job_event (job_list ! job_i s)]"
    if st: "step env addr_book job_list s = Inr s'"
  proof -
    from st have "last_time s' = time_at env (reads s) \<and> reads s' = reads s + 1 \<and>
      num_jobs_day s' = (if max_jobs_day \<le> num_jobs_day s then 0 else num_jobs_day s) + 1 \<and>
      job_i s' = job_i s + 1"
      by (rule step_Inr) blast
    with step_queries[OF st] show ?thesis by blast
  qed
  have 2: "job_i s1 = min k (length job_list) \<and>
      filter is_query (events s1) = map job_event (take k job_list)"
    if p: "passes env addr_book job_list k init_sched = Inr s1" for k s1
  proof -
    from p have i: "job_i s1 = min k (length job_list)" by (simp add: passes_counters)
    with passes_queries[OF p] show ?thesis by (simp add: min_def)
  qed
  have 3: "job_i s2 = length job_list \<and>
      filter is_query (events s2) = map job_event job_list \<and>
      last (events s2) = Print ''Finish querying!'' \<and>
      get_dist_mat env addr_book job_list = Inr (dist_mat s2)"
    if r: "run_sched env addr_book job_list = Inr s2"
  proof -
    from run_sched_passes[OF r] obtain s1 where
      p: "passes env addr_book job_list (length job_list) init_sched = Inr s1"
      and e: "s2 = s1\<lparr>events := events s1 @ [Print ''Finish querying!'']\<rparr>"
      by blast
    from 2[OF p] have "job_i s1 = length job_list"
      "filter is_query (events s1) = map job_event job_list" by simp_all
    then show ?thesis using r by (simp add: e get_dist_mat_def is_query_simps)
  qed
  from 1 2 3 show ?thesis by blast
qed

theorem dispatch_bookkeeping_witness:
  "passes env_v book_a (create_jobs book_a) 2 init_sched = Inr sched_a2
   \<and> step env_v book_a (create_jobs book_a) sched_a2 =
       Inr (sched_a\<lparr>events := [Query 1 0 1, Query 1 0 2, Query 1 1 2]\<rparr>)
   \<and> last_time (sched_a\<lparr>events := [Query 1 0 1, Query 1 0 2, Query 1 1 2]\<rparr>) = time_at env_v 2
   \<and> run_sched env_v book_a (create_jobs book_a) = Inr sched_a
   \<and> filter is_query (events sched_a) = [Query 1 0 1, Query 1 0 2, Query 1 1 2]
   \<and> get_dist_mat env_v book_a (create_jobs book_a) = Inr mat_a"
proof -
  have st: "step env_v book_a (create_jobs book_a) sched_a2 =
       Inr (sched_a\<lparr>events := [Query 1 0 1, Query 1 0 2, Query 1 1 2]\<rparr>)"
    by code_simp
  from dispatch_bookkeeping[of env_v book_a "create_jobs book_a" sched_a2
      "sched_a\<lparr>events := [Query 1 0 1, Query 1 0 2, Query 1 1 2]\<rparr>" 2 sched_a2 sched_a]
    st passes_a2 run_sched_a
  have "last_time (sched_a\<lparr>events := [Query 1 0 1, Query 1 0 2, Query 1 1 2]\<rparr>) =
      time_at env_v (reads sched_a2)"
    and "filter is_query (events sched_a) = map job_event (create_jobs book_a)"
    and "get_dist_mat env_v book_a (create_jobs book_a) = Inr (dist_mat sched_a)"
    by blast+
  then show ?thesis using st passes_a2 run_sched_a
    by (simp add: sched_a2_def sched_a_def jobs_a job_event_def)
qed

text \<open>
  Claim C7, amended. The rows and columns of the export are those of the ids that are
  keys of the matrix, not of all ids of the address book: for a matrix that is a dict
  and whose keys are ids of the book, \<open>export_result\<close> writes a header made of the
  string "sample" and the names of the keys in ascending order of the ids, then one row
  for each key in the same order, made of its name and, for each key in the same order,
  the entry of the matrix, or 0 where there is none. The matrix that \<open>get_dist_mat\<close>
  returns for the jobs of a book is such a matrix, and it has no entry on the diagonal
  nor for two ids that no group has both. The claim as stated has one row for each
  address id; an address that is alone in its group is in no job, is no key of the
  matrix, and gets neither row nor column.
\<close>

theorem export_result_rows:
  "(is_dict dm \<and> fst ` set dm \<subseteq> set (all_ids addr_book) \<longrightarrow>
      (\<exists>ids names.
         sorted ids \<and> distinct ids \<and> set ids = fst ` set dm \<and> length names = length ids \<and>
         (\<forall>k<length ids. \<exists>grp adds. (grp, adds) \<in> set addr_book \<and> (ids ! k, names ! k) \<in> set adds) \<and>
         export_result addr_book dm =
           Inr ((Str ''sample'' # map Str names) #
                map2 (\<lambda>ori_id name. Str name #
                        map (\<lambda>des_id. case cell dm ori_id des_id of
                                         None \<Rightarrow> Num 0
                                       | Some (Text t) \<Rightarrow> Str t
                                       | Some NoText \<Rightarrow> NoneField) ids)
                  ids names)))
   \<and> (addr_book_dict addr_book \<and> get_dist_mat env addr_book (create_jobs addr_book) = Inr dm \<longrightarrow>
        is_dict dm \<and> fst ` set dm \<subseteq> set (all_ids addr_book) \<and>
        (\<forall>a. cell dm a a = None) \<and>
        (\<forall>a b. (\<forall>grp. \<not> (in_group addr_book grp a \<and> in_group addr_book grp b)) \<longrightarrow>
               cell dm a b = None))"
proof -
  have 1: "\<exists>ids names.
         sorted ids \<and> distinct ids \<and> set ids = fst ` set dm \<and> length names = length ids \<and>
         (\<forall>k<length ids. \<exists>grp adds. (grp, adds) \<in> set addr_book \<and> (ids ! k, names ! k) \<in> set adds) \<and>
         export_result addr_book dm =
           Inr ((Str ''sample'' # map Str names) #
                map2 (\<lambda>ori_id name. Str name #
                        map (\<lambda>des_id. case cell dm ori_id des_id of
                                         None \<Rightarrow> Num 0
                                       | Some (Text t) \<Rightarrow> Str t
                                       | Some NoText \<Rightarrow> NoneField) ids)
                  ids names)"
    if d: "is_dict dm" and sub: "fst ` set dm \<subseteq> set (all_ids addr_book)"
  proof -
    let ?ids = "sort (map fst dm)"
    let ?f = "map_of (addr_names addr_book)"
    let ?names = "map (\<lambda>i. the (?f i)) ?ids"
    have some: "\<forall>i\<in>set ?ids. ?f i \<noteq> None"
      using sub by (auto simp: map_of_eq_None_iff addr_names_keys)
    then have th: "those (map ?f ?ids) = Some ?names" by (rule those_map_Some)
    have a: "sorted ?ids \<and> distinct ?ids \<and> set ?ids = fst ` set dm \<and> length ?names = length ?ids"
      using d by (simp add: is_dict_def)
    have b: "\<forall>k<length ?ids. \<exists>grp adds. (grp, adds) \<in> set addr_book \<and> (?ids ! k, ?names ! k) \<in> set adds"
    proof (intro allI impI)
      fix k assume k: "k < length ?ids"
      then have "?ids ! k \<in> set ?ids" by (rule nth_mem)
      with some obtain a where "?f (?ids ! k) = Some a" by auto
      moreover from this k have "?names ! k = a" by simp
      ultimately show "\<exists>grp adds. (grp, adds) \<in> set addr_book \<and> (?ids ! k, ?names ! k) \<in> set adds"
        by (auto dest: addr_names_lookup)
    qed
    have c: "export_result addr_book dm =
           Inr ((Str ''sample'' # map Str ?names) #
                map2 (\<lambda>ori_id name. Str name #
                        map (\<lambda>des_id. case cell dm ori_id des_id of
                                         None \<Rightarrow> Num 0
                                       | Some (Text t) \<Rightarrow> Str t
                                       | Some NoText \<Rightarrow> NoneField) ?ids)
                  ?ids ?names)"
      unfolding export_result_def Let_def th get_field_def by simp
    from a b c show ?thesis by blast
  qed
  have 2: "is_dict dm \<and> fst ` set dm \<subseteq> set (all_ids addr_book) \<and>
        (\<forall>a. cell dm a a = None) \<and>
        (\<forall>a b. (\<forall>grp. \<not> (in_group addr_book grp a \<and> in_group addr_book grp b)) \<longrightarrow>
               cell dm a b = None)"
    if d: "addr_book_dict addr_book"
      and g: "get_dist_mat env addr_book (create_jobs addr_book) = Inr dm"
  proof -
    let ?jobs = "create_jobs addr_book"
    from g obtain s where
      p: "passes env addr_book ?jobs (length ?jobs) init_sched = Inr s" and m: "dm = dist_mat s"
      by (auto simp: get_dist_mat_passes)
    from p have "matrix_inv ?jobs s" by (rule passes_matrix_inv)
    then have dict: "is_dict dm" by (simp add: matrix_inv_def is_dict_def m)
    from matrix_keys_lemma[OF d g]
    have diag: "\<forall>a. cell dm a a = None"
      and keys: "fst ` set dm = {a. \<exists>j \<in> set ?jobs. a = job_ori j \<or> a = job_des j}"
      and pairs: "\<forall>a b. cell dm a b \<noteq> None \<longrightarrow> (\<exists>j \<in> set ?jobs. job_pair j = {a, b})"
      by blast+
    have ing: "in_group addr_book (job_grp j) (job_ori j) \<and> in_group addr_book (job_grp j) (job_des j)"
      if "j \<in> set ?jobs" for j
      using create_jobs_in_group[OF d, of "fst j" "fst (snd j)" "snd (snd j)"] that
      by (simp add: job_ori_def job_des_def job_grp_def case_prod_beta)
    have sub: "fst ` set dm \<subseteq> set (all_ids addr_book)"
    proof
      fix a assume "a \<in> fst ` set dm"
      with keys obtain j where j: "j \<in> set ?jobs" and a: "a = job_ori j \<or> a = job_des j" by blast
      from ing[OF j] a have "in_group addr_book (job_grp j) a" by auto
      then show "a \<in> set (all_ids addr_book)"
        by (force simp: in_group_def all_ids_def split: option.splits dest: map_of_SomeD)
    qed
    have cross: "cell dm a b = None"
      if no: "\<forall>grp. \<not> (in_group addr_book grp a \<and> in_group addr_book grp b)" for a b
    proof (rule ccontr)
      assume "cell dm a b \<noteq> None"
      with pairs obtain j where j: "j \<in> set ?jobs" and e: "job_pair j = {a, b}" by blast
      from e have "(a = job_ori j \<and> b = job_des j) \<or> (a = job_des j \<and> b = job_ori j)"
        by (auto simp: job_pair_def job_ori_def job_des_def case_prod_beta doubleton_eq_iff)
      with ing[OF j] no show False by blast
    qed
    from dict sub diag cross show ?thesis by blast
  qed
  from 1 2 show ?thesis by blast
qed

theorem export_result_rows_witness:
  "is_dict mat_b \<and> set (map fst mat_b) \<subseteq> set (all_ids book_b)
   \<and> addr_book_dict book_b
   \<and> get_dist_mat env_v book_b (create_jobs book_b) = Inr mat_b
   \<and> cell mat_b 0 0 = None \<and> cell mat_b 1 2 = None
   \<and> export_result book_b mat_b =
     Inr [[Str ''sample'', Str ''A'', Str ''B'', Str ''C'', Str ''D'', Str ''E''],
          [Str ''A'', Num 0, Str ''5'', Num 0, Num 0, Num 0],
          [Str ''B'', Str ''5'', Num 0, Num 0, Num 0, Num 0],
          [Str ''C'', Num 0, Num 0, Num 0, Str ''5'', Str ''5''],
          [Str ''D'', Num 0, Num 0, Str ''5'', Num 0, Str ''5''],
          [Str ''E'', Num 0, Num 0, Str ''5'', Str ''5'', Num 0]]"
proof -
  have d: "is_dict mat_b" by (simp add: is_dict_def mat_b_def)
  have s: "set (map fst mat_b) \<subseteq> set (all_ids book_b)"
    by (simp add: mat_b_def all_ids_def book_b_def)
  from export_result_rows[of mat_b book_b env_v] book_b_dict get_dist_mat_b
  have "\<forall>a. cell mat_b a a = None" by blast
  then have "cell mat_b 0 0 = None" by simp
  moreover have "cell mat_b 1 2 = None" by (simp add: mat_b_def cell_def)
  ultimately show ?thesis
    using d s book_b_dict get_dist_mat_b export_b by simp
qed

theorem export_rows_counterexample:
  "get_dist_mat env_v book_c (create_jobs book_c) = Inr mat_c
   \<and> 2 \<in> set (all_ids book_c)
   \<and> export_result book_c mat_c =
       Inr [[Str ''sample'', Str ''A'', Str ''B''],
            [Str ''A'', Num 0, Str ''5''],
            [Str ''B'', Str ''5'', Num 0]]"
  using get_dist_mat_c export_c by (simp add: all_ids_def book_c_def)

text \<open>
  Claim C8. With a service that answers \<open>v\<close> to every request: when
  \<open>get_dist_mat\<close> returns a matrix for the jobs of an address book, the matrix has the
  entry \<open>v\<close> at \<open>[a][b]\<close> and at \<open>[b][a]\<close> for any two different ids \<open>a\<close> and \<open>b\<close>
  of one group; and it does return a matrix when the book is a dict of dicts with at
  most \<open>max_jobs_day\<close> jobs.
\<close>

theorem fixed_value_matrix:
  assumes "\<forall>n ori des. service env n ori des = Inr v"
  shows "(get_dist_mat env addr_book (create_jobs addr_book) = Inr m \<longrightarrow>
           (\<forall>grp adds a b. (grp, adds) \<in> set addr_book \<and> a \<in> fst ` set adds \<and> b \<in> fst ` set adds \<and> a \<noteq> b \<longrightarrow>
              cell m a b = Some v \<and> cell m b a = Some v))
       \<and> (addr_book_dict addr_book \<and> length (create_jobs addr_book) \<le> max_jobs_day \<longrightarrow>
           (\<exists>m'. get_dist_mat env addr_book (create_jobs addr_book) = Inr m'))"
proof -
  have 1: "cell m a b = Some v \<and> cell m b a = Some v"
    if g: "get_dist_mat env addr_book (create_jobs addr_book) = Inr m"
      and ab: "(grp, adds) \<in> set addr_book" "a \<in> fst ` set adds" "b \<in> fst ` set adds" "a \<noteq> b"
    for grp adds a b
  proof -
    from g obtain s where
      p: "passes env addr_book (create_jobs addr_book) (length (create_jobs addr_book)) init_sched = Inr s"
      and m: "m = dist_mat s"
      by (auto simp: get_dist_mat_passes)
    from p have i: "job_i s = length (create_jobs addr_book)" by (simp add: passes_counters)
    from p have inv: "matrix_inv (create_jobs addr_book) s" by (rule passes_matrix_inv)
    from assms p have vals: "values_inv v s" by (rule passes_values_inv)
    from ab have "pair_done (create_jobs addr_book) (length (create_jobs addr_book)) a b"
      by (rule pair_done_create_jobs)
    with inv i have "cell m a b \<noteq> None" by (simp add: matrix_inv_def m)
    moreover from inv have "cell m b a = cell m a b" by (simp add: matrix_inv_def m)
    ultimately show ?thesis using vals by (auto simp: values_inv_def m)
  qed
  have 2: "\<exists>m'. get_dist_mat env addr_book (create_jobs addr_book) = Inr m'"
    if "addr_book_dict addr_book" "length (create_jobs addr_book) \<le> max_jobs_day"
  proof (rule get_dist_mat_ok)
    show "\<forall>j<length (create_jobs addr_book). \<exists>d. job_query env addr_book (create_jobs addr_book) j = Inr d"
      using that(1) assms by (auto intro!: create_jobs_query)
  qed (rule that(2))
  from 1 2 show ?thesis by blast
qed

theorem fixed_value_matrix_witness:
  "service env_v 0 ''A'' ''B'' = Inr (Text ''5'')
   \<and> get_dist_mat env_v book_a (create_jobs book_a) = Inr mat_a
   \<and> cell mat_a 0 2 = Some (Text ''5'') \<and> cell mat_a 2 0 = Some (Text ''5'')
   \<and> addr_book_dict book_a \<and> length (create_jobs book_a) \<le> max_jobs_day"
  using fixed_value_matrix[OF env_v_service, of book_a mat_a] get_dist_mat_a book_a_dict
  by (simp add: mat_a_def cell_def jobs_a max_jobs_day_def env_v_def)

text \<open>
  Claim C9. For the address book with the one group 1 and the three addresses A, B
  and C under the ids \<open>id0\<close>, \<open>id1\<close>, \<open>id2\<close>, in this order, \<open>create_jobs\<close>
  returns the three jobs \<open>(1, id0, id1)\<close>, \<open>(1, id0, id2)\<close>, \<open>(1, id1, id2)\<close>, in
  this order, whatever the three ids are.
\<close>

theorem create_jobs_scenario_a:
  "create_jobs [(1, [(id0, ''A''), (id1, ''B''), (id2, ''C'')])] =
     [(1, id0, id1), (1, id0, id2), (1, id1, id2)]"
  by (simp add: create_jobs_def group_jobs_def)

text \<open>
  Claim C10. In the matrix that \<open>get_dist_mat\<close> returns for the jobs of an address
  book that is a dict of dicts, no id has an entry with itself; the keys are the ids
  that are origin or destination of a job; every entry \<open>[a][b]\<close> is for the unordered
  pair of a job; and an id whose groups all have one address is no key and no column of
  any entry.
\<close>

theorem dist_mat_keys:
  assumes "addr_book_dict addr_book"
    and "get_dist_mat env addr_book (create_jobs addr_book) = Inr m"
  shows "(\<forall>a. cell m a a = None)
       \<and> fst ` set m = {a. \<exists>j \<in> set (create_jobs addr_book). a = job_ori j \<or> a = job_des j}
       \<and> (\<forall>a b. cell m a b \<noteq> None \<longrightarrow> (\<exists>j \<in> set (create_jobs addr_book). job_pair j = {a, b}))
       \<and> (\<forall>a. (\<forall>grp adds. (grp, adds) \<in> set addr_book \<and> a \<in> fst ` set adds \<longrightarrow> length adds = 1) \<longrightarrow>
              a \<notin> fst ` set m \<and> (\<forall>b. cell m b a = None))"
  using assms by (rule matrix_keys_lemma)

theorem dist_mat_keys_witness:
  "addr_book_dict book_c
   \<and> get_dist_mat env_v book_c (create_jobs book_c) = Inr mat_c
   \<and> fst ` set mat_c = {0, 1}
   \<and> 2 \<notin> fst ` set mat_c
   \<and> cell mat_c 0 0 = None \<and> cell mat_c 1 1 = None"
proof -
  from dist_mat_keys[OF book_c_dict get_dist_mat_c]
  have "\<forall>a. cell mat_c a a = None" by blast
  then have "cell mat_c 0 0 = None \<and> cell mat_c 1 1 = None" by simp
  moreover have "fst ` set mat_c = {0, 1} \<and> 2 \<notin> fst ` set mat_c"
    by (simp add: mat_c_def)
  ultimately show ?thesis
    using book_c_dict get_dist_mat_c by simp
qed

end
